theory Spec2Isabelle
  imports Main "HOL-Library.Word" "HOL-Library.Signed_Division" "HOL-Library.Monad_Syntax"
begin

unbundle bit_operations_syntax

section \<open>Machine integers\<close>

text \<open>
  The package only compiles where Go's \<^verbatim>\<open>int\<close> has 64 bits: the constant
  \<^verbatim>\<open>internalToAbsolute\<close> (106751990353932) is added to a value of type \<^verbatim>\<open>Date\<close>, whose
  underlying type is \<^verbatim>\<open>int\<close>. So \<^verbatim>\<open>int\<close>, \<^verbatim>\<open>int64\<close>, \<^verbatim>\<open>uint64\<close>, \<^verbatim>\<open>time.Month\<close>,
  \<^verbatim>\<open>time.Weekday\<close> and \<^verbatim>\<open>Date\<close> are all 64-bit words; \<open>+\<close>, \<open>-\<close> and \<open>*\<close> wrap around as
  in Go, conversions between the signed and the unsigned reading keep the bits.
  Signed comparisons are \<open><s\<close> and \<open>\<le>s\<close>, unsigned ones \<open><\<close> and \<open>\<le>\<close>; unsigned division
  is \<open>div\<close>.
\<close>

type_synonym go_int = "64 word"
type_synonym uint64 = "64 word"
type_synonym byte = "8 word"
type_synonym Date = "64 word"

text \<open>Go's \<^verbatim>\<open>/\<close> and \<^verbatim>\<open>%\<close> on signed integers truncate towards zero. They are only
  used here with a divisor that is not zero (where the divisor is a parameter, the
  caller in the model checks it first).\<close>

definition quo :: "go_int \<Rightarrow> go_int \<Rightarrow> go_int" where
  "quo a b = word_of_int (sint a sdiv sint b)"

definition rem :: "go_int \<Rightarrow> go_int \<Rightarrow> go_int" where
  "rem a b = word_of_int (sint a smod sint b)"

text \<open>Indexing an array or slice panics out of range: \<open>None\<close> is the panic.\<close>

definition index :: "'a list \<Rightarrow> go_int \<Rightarrow> 'a option" where
  "index xs i = (if 0 \<le>s i \<and> sint i < int (length xs) then Some (xs ! nat (sint i)) else None)"

section \<open>Calendar arithmetic (date.go)\<close>

definition absoluteZeroYear :: go_int where
  "absoluteZeroYear = - 292277022399"

definition internalYear :: go_int where
  "internalYear = 1"

text \<open>\<^verbatim>\<open>absoluteToInternal = (absoluteZeroYear - internalYear) * 365.2425\<close> is an untyped
  constant expression, evaluated exactly: \<open>- 292277022400 * 3652425 / 10000\<close>, which is
  the integer \<open>- 106751990353932\<close>.\<close>

definition absoluteToInternal :: go_int where
  "absoluteToInternal = word_of_int (((- 292277022399 - 1) * 3652425) div 10000)"

definition internalToAbsolute :: go_int where
  "internalToAbsolute = - absoluteToInternal"

definition daysPer400Years :: "64 word" where
  "daysPer400Years = 146097"

definition daysPer100Years :: "64 word" where
  "daysPer100Years = 36524"

definition daysPer4Years :: "64 word" where
  "daysPer4Years = 1461"

definition daysBefore :: "go_int list" where
  "daysBefore =
     [0,
      31,
      31 + 28,
      31 + 28 + 31,
      31 + 28 + 31 + 30,
      31 + 28 + 31 + 30 + 31,
      31 + 28 + 31 + 30 + 31 + 30,
      31 + 28 + 31 + 30 + 31 + 30 + 31,
      31 + 28 + 31 + 30 + 31 + 30 + 31 + 31,
      31 + 28 + 31 + 30 + 31 + 30 + 31 + 31 + 30,
      31 + 28 + 31 + 30 + 31 + 30 + 31 + 31 + 30 + 31,
      31 + 28 + 31 + 30 + 31 + 30 + 31 + 31 + 30 + 31 + 30,
      31 + 28 + 31 + 30 + 31 + 30 + 31 + 31 + 30 + 31 + 30 + 31]"

definition isLeap :: "go_int \<Rightarrow> bool" where
  "isLeap year \<longleftrightarrow> rem year 4 = 0 \<and> (rem year 100 \<noteq> 0 \<or> rem year 400 = 0)"

definition daysIn :: "go_int \<Rightarrow> go_int \<Rightarrow> go_int option" where
  "daysIn m year =
     (if m = 2 \<and> isLeap year then Some 29
      else do {
        a \<leftarrow> index daysBefore m;
        b \<leftarrow> index daysBefore (m - 1);
        Some (a - b)
      })"

text \<open>\<^verbatim>\<open>absDate(abs uint64, full bool) (year int, month time.Month, day int, yday int)\<close>.
  The arithmetic up to \<open>year\<close> is unsigned; \<open>day / 31\<close> is a signed division.\<close>

definition absDate :: "uint64 \<Rightarrow> bool \<Rightarrow> (go_int \<times> go_int \<times> go_int \<times> go_int) option" where
  "absDate abs64 full =
     (let d = abs64;
          n = d div daysPer400Years;
          y = 400 * n;
          d = d - daysPer400Years * n;
          n = d div daysPer100Years;
          n = n - drop_bit 2 n;
          y = y + 100 * n;
          d = d - daysPer100Years * n;
          n = d div daysPer4Years;
          y = y + 4 * n;
          d = d - daysPer4Years * n;
          n = d div 365;
          n = n - drop_bit 2 n;
          y = y + n;
          d = d - 365 * n;
          year = y + absoluteZeroYear;
          yday = d
      in if \<not> full then Some (year, 0, 0, yday)
         else let day = yday in
           if isLeap year \<and> \<not> 31 + 29 - 1 <s day \<and> day = 31 + 29 - 1
           then Some (year, 2, 29, yday)
           else
             let day = (if isLeap year \<and> 31 + 29 - 1 <s day then day - 1 else day);
                 month = quo day 31
             in do {
               end_m \<leftarrow> index daysBefore (month + 1);
               (if end_m \<le>s day
                then Some (year, month + 1 + 1, day - end_m + 1, yday)
                else do {
                  begin_m \<leftarrow> index daysBefore month;
                  Some (year, month + 1, day - begin_m + 1, yday)
                })
             })"

definition daysSinceEpoch :: "go_int \<Rightarrow> go_int" where
  "daysSinceEpoch year =
     (let y = year - absoluteZeroYear;
          n = quo y 400;
          y = y - 400 * n;
          d = daysPer400Years * n;
          n = quo y 100;
          y = y - 100 * n;
          d = d + daysPer100Years * n;
          n = quo y 4;
          y = y - 4 * n;
          d = d + daysPer4Years * n;
          n = y;
          d = d + 365 * n
      in d)"

text \<open>\<^verbatim>\<open>norm(hi, lo, base)\<close>. With \<open>base = 0\<close> one of the two divisions is always
  executed (\<open>lo < 0\<close> takes the first branch, \<open>lo \<ge> 0 = base\<close> the second) and panics.\<close>

definition norm :: "go_int \<Rightarrow> go_int \<Rightarrow> go_int \<Rightarrow> (go_int \<times> go_int) option" where
  "norm hi lo base =
     (if base = 0 then None
      else
        let (hi, lo) =
              (if lo <s 0
               then let n = quo (- lo - 1) base + 1 in (hi - n, lo + n * base)
               else (hi, lo));
            (hi, lo) =
              (if base \<le>s lo
               then let n = quo lo base in (hi + n, lo - n * base)
               else (hi, lo))
        in Some (hi, lo))"

definition Of :: "go_int \<Rightarrow> go_int \<Rightarrow> go_int \<Rightarrow> Date option" where
  "Of year month day =
     (let m = month - 1 in
      do {
        (year, m) \<leftarrow> norm year m 12;
        let month = m + 1;
        let d = daysSinceEpoch year;
        db \<leftarrow> index daysBefore (month - 1);
        let d = d + db;
        let d = (if isLeap year \<and> 3 \<le>s month then d + 1 else d);
        let d = d + (day - 1);
        Some (d - internalToAbsolute)
      })"

definition Date_abs :: "Date \<Rightarrow> uint64" where
  "Date_abs d = d + internalToAbsolute"

definition Date_Date :: "Date \<Rightarrow> (go_int \<times> go_int \<times> go_int) option" where
  "Date_Date d =
     do {
       (year, month, day, yday) \<leftarrow> absDate (Date_abs d) True;
       Some (year, month, day)
     }"

text \<open>\<^verbatim>\<open>(time.Monday + time.Weekday(d.abs())) % 7\<close>, with \<^verbatim>\<open>time.Monday = 1\<close>.\<close>

definition Weekday :: "Date \<Rightarrow> go_int" where
  "Weekday d = rem (1 + Date_abs d) 7"

section \<open>Layouts (format.go)\<close>

text \<open>A Go string is a sequence of bytes: \<^typ>\<open>string\<close>, with \<open>byte_of\<close> reading one byte
  as an unsigned 8-bit number.\<close>

definition byte_of :: "char \<Rightarrow> byte" where
  "byte_of c = of_char c"

definition RFC3339 :: string where
  "RFC3339 = ''2006-01-02''"

definition longDayNames :: "string list" where
  "longDayNames =
     [''Sunday'', ''Monday'', ''Tuesday'', ''Wednesday'', ''Thursday'', ''Friday'', ''Saturday'']"

definition shortDayNames :: "string list" where
  "shortDayNames = [''Sun'', ''Mon'', ''Tue'', ''Wed'', ''Thu'', ''Fri'', ''Sat'']"

definition shortMonthNames :: "string list" where
  "shortMonthNames =
     [''Jan'', ''Feb'', ''Mar'', ''Apr'', ''May'', ''Jun'',
      ''Jul'', ''Aug'', ''Sep'', ''Oct'', ''Nov'', ''Dec'']"

definition longMonthNames :: "string list" where
  "longMonthNames =
     [''January'', ''February'', ''March'', ''April'', ''May'', ''June'',
      ''July'', ''August'', ''September'', ''October'', ''November'', ''December'']"

datatype fmtOp =
    opLiteral
  | opLongMonth
  | opMonth
  | opLongWeekDay
  | opWeekDay
  | opZeroYearDay
  | opZeroMonth
  | opZeroDay
  | opYear
  | opNumMonth
  | opLongYear
  | opDay
  | opUnderLongYear
  | opUnderDay
  | opUnderYearDay
  | opInvalid

record inst =
  op :: fmtOp
  lit :: string

text \<open>\<^verbatim>\<open>fmtOp.String\<close> panics on any other value (\<open>opInvalid\<close>): \<open>None\<close>.\<close>

fun fmtOp_String :: "fmtOp \<Rightarrow> string option" where
  "fmtOp_String opLiteral = Some ''<literal>''"
| "fmtOp_String opLongMonth = Some ''January''"
| "fmtOp_String opMonth = Some ''Jan''"
| "fmtOp_String opLongWeekDay = Some ''Monday''"
| "fmtOp_String opWeekDay = Some ''Mon''"
| "fmtOp_String opZeroYearDay = Some ''002''"
| "fmtOp_String opZeroMonth = Some ''01''"
| "fmtOp_String opZeroDay = Some ''02''"
| "fmtOp_String opYear = Some ''06''"
| "fmtOp_String opNumMonth = Some ''1''"
| "fmtOp_String opLongYear = Some ''2006''"
| "fmtOp_String opDay = Some ''2''"
| "fmtOp_String opUnderLongYear = Some ''_2006''"
| "fmtOp_String opUnderDay = Some ''_2''"
| "fmtOp_String opUnderYearDay = Some ''__2''"
| "fmtOp_String opInvalid = None"

definition inst_String :: "inst \<Rightarrow> string option" where
  "inst_String i = (if op i = opLiteral then Some (lit i) else fmtOp_String (op i))"

definition endsWord :: "fmtOp \<Rightarrow> bool" where
  "endsWord p \<longleftrightarrow> p = opMonth \<or> p = opWeekDay"

definition startsWithLowerCase :: "string \<Rightarrow> bool" where
  "startsWithLowerCase s \<longleftrightarrow>
     0 < length s \<and> byte_of CHR ''a'' \<le> byte_of (hd s) \<and> byte_of (hd s) \<le> byte_of CHR ''z''"

text \<open>\<^verbatim>\<open>strings.CutPrefix(s, prefix)\<close> of the standard library.\<close>

definition CutPrefix :: "string \<Rightarrow> string \<Rightarrow> string \<times> bool" where
  "CutPrefix s pre =
     (if take (length pre) s = pre then (drop (length pre) s, True) else (s, False))"

text \<open>The operators that the inner loop of \<^verbatim>\<open>nextOp\<close> runs through:
  \<^verbatim>\<open>for op := opLongMonth; op < opInvalid; op++\<close>.\<close>

definition opRange :: "fmtOp list" where
  "opRange =
     [opLongMonth, opMonth, opLongWeekDay, opWeekDay, opZeroYearDay, opZeroMonth, opZeroDay,
      opYear, opNumMonth, opLongYear, opDay, opUnderLongYear, opUnderDay, opUnderYearDay]"

text \<open>The inner loop of \<^verbatim>\<open>nextOp\<close> at one position, \<open>s\<close> being \<^verbatim>\<open>layout[i:]\<close>:
  \<open>None\<close> is a panic, \<open>Some None\<close> that no operator starts here.\<close>

fun nextOp_at :: "fmtOp list \<Rightarrow> string \<Rightarrow> (fmtOp \<times> string) option option" where
  "nextOp_at [] s = Some None"
| "nextOp_at (p # ps) s =
     (case fmtOp_String p of
        None \<Rightarrow> None
      | Some tok \<Rightarrow>
          (case CutPrefix s tok of
             (suffix, ok) \<Rightarrow>
               if \<not> ok then nextOp_at ps s
               else if endsWord p \<and> startsWithLowerCase suffix then nextOp_at ps s
               else Some (Some (p, suffix))))"

text \<open>The outer loop of \<^verbatim>\<open>nextOp\<close>: \<open>pre\<close> is \<^verbatim>\<open>layout[:i]\<close> and the list
  argument \<^verbatim>\<open>layout[i:]\<close>.\<close>

fun nextOp_from :: "string \<Rightarrow> string \<Rightarrow> (string \<times> fmtOp \<times> string) option" where
  "nextOp_from pre [] = Some (pre, opLiteral, [])"
| "nextOp_from pre (c # cs) =
     (case nextOp_at opRange (c # cs) of
        None \<Rightarrow> None
      | Some (Some (p, suffix)) \<Rightarrow> Some (pre, p, suffix)
      | Some None \<Rightarrow> nextOp_from (pre @ [c]) cs)"

definition nextOp :: "string \<Rightarrow> (string \<times> fmtOp \<times> string) option" where
  "nextOp layout = nextOp_from [] layout"

lemma nextOp_at_length:
  "nextOp_at ps s = Some (Some (p, suffix)) \<Longrightarrow> length suffix < length s"
proof (induction ps)
  case Nil
  then show ?case by simp
next
  case (Cons q qs)
  show ?case
  proof (cases "fmtOp_String q")
    case None
    with Cons.prems show ?thesis by simp
  next
    case (Some tok)
    have tok: "tok \<noteq> []"
      using Some by (cases q) auto
    show ?thesis
    proof (cases "take (length tok) s = tok")
      case False
      with Cons Some show ?thesis by (simp add: CutPrefix_def)
    next
      case True
      then have s: "s \<noteq> []" using tok by auto
      from Cons Some True tok s show ?thesis
        by (auto simp: CutPrefix_def split: if_splits)
    qed
  qed
qed

lemma nextOp_from_length:
  "nextOp_from pre s = Some (prefix, p, suffix) \<Longrightarrow> s \<noteq> [] \<Longrightarrow> length suffix < length s"
proof (induction s arbitrary: pre)
  case Nil
  then show ?case by simp
next
  case (Cons c cs)
  show ?case
  proof (cases "nextOp_at opRange (c # cs)")
    case None
    with Cons.prems show ?thesis by simp
  next
    case (Some r)
    show ?thesis
    proof (cases r)
      case None
      with Some Cons.prems have *: "nextOp_from (pre @ [c]) cs = Some (prefix, p, suffix)"
        by simp
      show ?thesis
      proof (cases cs)
        case Nil
        with * show ?thesis by simp
      next
        case (Cons a list)
        with * Cons.IH [of "pre @ [c]"] show ?thesis by simp
      qed
    next
      case (Some ps)
      with \<open>nextOp_at opRange (c # cs) = Some r\<close> Cons.prems nextOp_at_length [of opRange "c # cs" p suffix]
      show ?thesis by (cases ps) auto
    qed
  qed
qed

text \<open>\<^verbatim>\<open>parseLayout\<close>: the loop \<^verbatim>\<open>for len(layout) > 0\<close>, \<open>prog\<close> being the instructions
  appended so far.\<close>

function parseLayout_loop :: "inst list \<Rightarrow> string \<Rightarrow> inst list option" where
  "parseLayout_loop prog layout =
     (if layout = [] then Some prog
      else
        (case nextOp layout of
           None \<Rightarrow> None
         | Some (prefix, p, suffix) \<Rightarrow>
             let prog = (if prefix \<noteq> [] then prog @ [\<lparr>op = opLiteral, lit = prefix\<rparr>] else prog);
                 prog = (if p \<noteq> opLiteral then prog @ [\<lparr>op = p, lit = []\<rparr>] else prog)
             in parseLayout_loop prog suffix))"
  by pat_completeness auto
termination
  by (relation "measure (\<lambda>(prog, layout). length layout)")
     (auto simp: nextOp_def dest: nextOp_from_length)

declare parseLayout_loop.simps [simp del]

definition parseLayout :: "string \<Rightarrow> inst list option" where
  "parseLayout layout = parseLayout_loop [] layout"

text \<open>\<^verbatim>\<open>memo.Get(layout, parseLayout)\<close>: the cache maps a layout to the instructions that
  \<^verbatim>\<open>parseLayout\<close> returned for it on an earlier call (it is filled by \<^verbatim>\<open>Get\<close> with this
  one function only), or calls \<^verbatim>\<open>parseLayout\<close> now. Both give \<open>parseLayout layout\<close>.\<close>

definition memo_Get :: "string \<Rightarrow> inst list option" where
  "memo_Get layout = parseLayout layout"

section \<open>Formatting (format.go)\<close>

text \<open>\<^verbatim>\<open>strconv.AppendInt(b, i, 10)\<close> of the standard library: the decimal digits of the
  magnitude (read as unsigned after negation, as \<^verbatim>\<open>formatBits\<close> does), after a minus sign
  for a negative number.\<close>

definition digit_char :: "int \<Rightarrow> char" where
  "digit_char n = char_of (of_char CHR ''0'' + n)"

function utoa :: "int \<Rightarrow> string" where
  "utoa n = (if n < 10 then [digit_char n] else utoa (n div 10) @ [digit_char (n mod 10)])"
  by pat_completeness auto
termination
  by (relation "measure nat") auto

declare utoa.simps [simp del]

definition AppendInt :: "string \<Rightarrow> go_int \<Rightarrow> string" where
  "AppendInt b i = (if i <s 0 then b @ ''-'' @ utoa (uint (- i)) else b @ utoa (uint i))"

text \<open>\<^verbatim>\<open>time.Month.String\<close> and \<^verbatim>\<open>time.Weekday.String\<close> of the standard library: the
  English name, or a placeholder for a value out of range. The names are those of the
  tables above.\<close>

definition Month_String :: "go_int \<Rightarrow> string" where
  "Month_String m =
     (if 1 \<le>s m \<and> m \<le>s 12 then longMonthNames ! nat (sint (m - 1))
      else ''%!Month('' @ utoa (uint m) @ '')'')"

definition Weekday_String :: "go_int \<Rightarrow> string" where
  "Weekday_String d =
     (if 0 \<le>s d \<and> d \<le>s 6 then longDayNames ! nat (sint d)
      else ''%!Weekday('' @ utoa (uint d) @ '')'')"

text \<open>The body of \<^verbatim>\<open>case opLongYear\<close> in \<^verbatim>\<open>AppendFormat\<close>, which \<^verbatim>\<open>case opUnderLongYear\<close>
  falls through to.\<close>

definition appendLongYear :: "string \<Rightarrow> go_int \<Rightarrow> string" where
  "appendLongYear b year =
     (let y = year;
          (b, y) = (if y <s 0 then (b @ ''-'', - y) else (b, y));
          b = (if y <s 1000 then b @ ''0'' else b);
          b = (if y <s 100 then b @ ''0'' else b);
          b = (if y <s 10 then b @ ''0'' else b)
      in AppendInt b y)"

text \<open>One iteration of the loop of \<^verbatim>\<open>AppendFormat\<close>; \<open>yday\<close> is already 1-based.\<close>

definition appendInst ::
    "Date \<Rightarrow> go_int \<Rightarrow> go_int \<Rightarrow> go_int \<Rightarrow> go_int \<Rightarrow> inst \<Rightarrow> string \<Rightarrow> string option" where
  "appendInst d year month day yday i b =
     (case op i of
        opLiteral \<Rightarrow> Some (b @ lit i)
      | opYear \<Rightarrow>
          (let y = rem year 100;
               y = (if y <s 0 then - y else y);
               b = (if y <s 10 then b @ ''0'' else b)
           in Some (AppendInt b y))
      | opUnderLongYear \<Rightarrow> Some (appendLongYear (b @ ''_'') year)
      | opLongYear \<Rightarrow> Some (appendLongYear b year)
      | opMonth \<Rightarrow> Some (b @ take 3 (Month_String month))
      | opLongMonth \<Rightarrow> Some (b @ Month_String month)
      | opNumMonth \<Rightarrow> Some (AppendInt b month)
      | opZeroMonth \<Rightarrow> Some (AppendInt (if month <s 10 then b @ ''0'' else b) month)
      | opWeekDay \<Rightarrow> Some (b @ take 3 (Weekday_String (Weekday d)))
      | opLongWeekDay \<Rightarrow> Some (b @ Weekday_String (Weekday d))
      | opDay \<Rightarrow> Some (AppendInt b day)
      | opUnderDay \<Rightarrow> Some (AppendInt (if day <s 10 then b @ '' '' else b) day)
      | opZeroDay \<Rightarrow> Some (AppendInt (if day <s 10 then b @ ''0'' else b) day)
      | opUnderYearDay \<Rightarrow>
          Some (AppendInt
            (if yday <s 100 then (if yday <s 10 then b @ '' '' @ '' '' else b @ '' '') else b)
            yday)
      | opZeroYearDay \<Rightarrow>
          Some (AppendInt
            (if yday <s 100 then (if yday <s 10 then b @ ''0'' @ ''0'' else b @ ''0'') else b)
            yday)
      | opInvalid \<Rightarrow> None)"

fun appendProg ::
    "Date \<Rightarrow> go_int \<Rightarrow> go_int \<Rightarrow> go_int \<Rightarrow> go_int \<Rightarrow> inst list \<Rightarrow> string \<Rightarrow> string option" where
  "appendProg d year month day yday [] b = Some b"
| "appendProg d year month day yday (i # prog) b =
     (case appendInst d year month day yday i b of
        None \<Rightarrow> None
      | Some b' \<Rightarrow> appendProg d year month day yday prog b')"

definition AppendFormat :: "Date \<Rightarrow> string \<Rightarrow> string \<Rightarrow> string option" where
  "AppendFormat d b layout =
     do {
       (year, month, day, yday) \<leftarrow> absDate (Date_abs d) True;
       let yday = yday + 1;
       prog \<leftarrow> memo_Get layout;
       appendProg d year month day yday prog b
     }"

text \<open>\<^verbatim>\<open>Format\<close> appends to an empty buffer (its capacity is not observable).\<close>

definition Format :: "Date \<Rightarrow> string \<Rightarrow> string option" where
  "Format d layout = AppendFormat d [] layout"

section \<open>Parsing (format.go)\<close>

text \<open>The message of a \<^verbatim>\<open>ParseError\<close>: a fixed text, or \<open>ExtraText v\<close> for
  \<^verbatim>\<open>"extra text: " + strconv.Quote(v)\<close> (the quoting of the standard library is not
  modelled). The empty message is \<open>Text []\<close>.\<close>

datatype message = Text string | ExtraText string

record ParseError =
  Layout :: string
  Value :: string
  LayoutElem :: string
  ValueElem :: string
  Message :: message

record parser =
  p_inst :: inst
  p_hasErr :: bool
  p_value :: string
  p_valEl :: string
  p_errMsg :: string

text \<open>\<^verbatim>\<open>match(s1, s2)\<close> reads \<^verbatim>\<open>s2[i]\<close> for every index of \<^verbatim>\<open>s1\<close>, and panics where
  \<^verbatim>\<open>s2\<close> is shorter.\<close>

fun match :: "string \<Rightarrow> string \<Rightarrow> bool option" where
  "match [] s2 = Some True"
| "match (c1 # s1) [] = None"
| "match (c1 # s1) (c2 # s2) =
     (if c1 \<noteq> c2
      then
        let c1' = byte_of c1 OR (byte_of CHR ''a'' - byte_of CHR ''A'');
            c2' = byte_of c2 OR (byte_of CHR ''a'' - byte_of CHR ''A'')
        in if c1' \<noteq> c2' \<or> c1' < byte_of CHR ''a'' \<or> byte_of CHR ''z'' < c1'
           then Some False
           else match s1 s2
      else match s1 s2)"

definition isDigit :: "string \<Rightarrow> nat \<Rightarrow> bool" where
  "isDigit s i =
     (if length s \<le> i then False
      else byte_of CHR ''0'' \<le> byte_of (s ! i) \<and> byte_of (s ! i) \<le> byte_of CHR ''9'')"

definition newParser :: "string \<Rightarrow> parser" where
  "newParser v =
     \<lparr>p_inst = \<lparr>op = opLiteral, lit = []\<rparr>, p_hasErr = False, p_value = v, p_valEl = [],
      p_errMsg = []\<rparr>"

definition setInst :: "inst \<Rightarrow> parser \<Rightarrow> parser" where
  "setInst i p = p\<lparr>p_inst := i, p_valEl := p_value p\<rparr>"

definition finish :: "parser \<Rightarrow> parser" where
  "finish p = p\<lparr>p_inst := \<lparr>op = opInvalid, lit = []\<rparr>, p_valEl := []\<rparr>"

definition parseFailed :: "parser \<Rightarrow> parser" where
  "parseFailed p = p\<lparr>p_hasErr := True\<rparr>"

definition invalidDate :: "string \<Rightarrow> parser \<Rightarrow> parser" where
  "invalidDate msg p = p\<lparr>p_hasErr := True, p_errMsg := msg\<rparr>"

text \<open>\<^verbatim>\<open>parser.err\<close>: without a message it reports the current instruction
  (\<^verbatim>\<open>p.inst.String()\<close>, which can panic) and the input from where it started.\<close>

definition parser_err :: "parser \<Rightarrow> string \<Rightarrow> string \<Rightarrow> message \<Rightarrow> ParseError option" where
  "parser_err p layout v msg =
     (if msg = Text []
      then do {
        le \<leftarrow> inst_String (p_inst p);
        Some \<lparr>Layout = layout, Value = v, LayoutElem = le, ValueElem = p_valEl p,
              Message = Text []\<rparr>
      }
      else Some \<lparr>Layout = layout, Value = v, LayoutElem = [], ValueElem = [], Message = msg\<rparr>)"

definition skipByte :: "char \<Rightarrow> parser \<Rightarrow> parser" where
  "skipByte b p =
     (if 0 < length (p_value p) \<and> hd (p_value p) = b then p\<lparr>p_value := tl (p_value p)\<rparr> else p)"

definition trimByte :: "char \<Rightarrow> parser \<Rightarrow> parser" where
  "trimByte b p = p\<lparr>p_value := dropWhile (\<lambda>c. c = b) (p_value p)\<rparr>"

text \<open>\<^verbatim>\<open>accept\<close>; \<^verbatim>\<open>strings.TrimLeft(lit, " ")\<close> drops the leading spaces.\<close>

function accept :: "string \<Rightarrow> parser \<Rightarrow> parser" where
  "accept lit0 p =
     (if 0 < length lit0
      then
        if hd lit0 = CHR '' ''
        then
          if p_value p \<noteq> [] \<and> hd (p_value p) \<noteq> CHR '' '' then parseFailed p
          else accept (dropWhile (\<lambda>c. c = CHR '' '') lit0) (trimByte (CHR '' '') p)
        else if p_value p = [] \<or> hd (p_value p) \<noteq> hd lit0 then parseFailed p
        else accept (tl lit0) (p\<lparr>p_value := tl (p_value p)\<rparr>)
      else p)"
  by pat_completeness auto
termination
proof (relation "measure (\<lambda>(lit0, p). length lit0)")
  show "wf (measure (\<lambda>(lit0, p). length lit0))" by simp
next
  fix lit0 :: string and p :: parser
  assume "0 < length lit0" "hd lit0 = CHR '' ''"
  then obtain cs where "lit0 = CHR '' '' # cs" by (cases lit0) auto
  then have "length (dropWhile (\<lambda>c. c = CHR '' '') lit0) \<le> length cs"
    by (simp add: length_dropWhile_le)
  with \<open>lit0 = CHR '' '' # cs\<close>
  show "((dropWhile (\<lambda>c. c = CHR '' '') lit0, trimByte CHR '' '' p), lit0, p)
          \<in> measure (\<lambda>(lit0, p). length lit0)"
    by simp
next
  fix lit0 :: string and p :: parser
  assume "0 < length lit0"
  then show "((tl lit0, p\<lparr>p_value := tl (p_value p)\<rparr>), lit0, p) \<in> measure (\<lambda>(lit0, p). length lit0)"
    by (cases lit0) auto
qed

declare accept.simps [simp del]

text \<open>\<^verbatim>\<open>strconv.Atoi\<close> of the standard library: an optional sign, then one or more decimal
  digits and nothing else; \<open>None\<close> is its error (bad syntax, or a value out of the range
  of \<^verbatim>\<open>int\<close>).\<close>

definition is_digit_char :: "char \<Rightarrow> bool" where
  "is_digit_char c \<longleftrightarrow> byte_of CHR ''0'' \<le> byte_of c \<and> byte_of c \<le> byte_of CHR ''9''"

fun decimal :: "int \<Rightarrow> string \<Rightarrow> int" where
  "decimal n [] = n"
| "decimal n (c # cs) = decimal (n * 10 + uint (byte_of c - byte_of CHR ''0'')) cs"

definition Atoi :: "string \<Rightarrow> go_int option" where
  "Atoi s0 =
     (let neg = (s0 \<noteq> [] \<and> hd s0 = CHR ''-'');
          s = (if s0 \<noteq> [] \<and> (hd s0 = CHR ''-'' \<or> hd s0 = CHR ''+'') then tl s0 else s0)
      in if s = [] \<or> \<not> list_all is_digit_char s then None
         else
           let n = decimal 0 s
           in if neg then (if n \<le> 2 ^ 63 then Some (word_of_int (- n)) else None)
              else (if n < 2 ^ 63 then Some (word_of_int n) else None))"

text \<open>\<^verbatim>\<open>atoi(i)\<close>, called with \<open>i = 2\<close> and \<open>i = 4\<close> only.\<close>

definition atoi :: "nat \<Rightarrow> parser \<Rightarrow> go_int \<times> parser" where
  "atoi i p =
     (if length (p_value p) < i then (0, parseFailed p)
      else
        (case Atoi (take i (p_value p)) of
           None \<Rightarrow> (0, parseFailed p)
         | Some v \<Rightarrow> (v, p\<lparr>p_value := drop i (p_value p)\<rparr>)))"

text \<open>The loop of \<^verbatim>\<open>getnumN\<close>: \<^verbatim>\<open>for i = 0; i < N && isDigit(p.value, i); i++\<close>.\<close>

function getnumN_loop :: "nat \<Rightarrow> string \<Rightarrow> nat \<Rightarrow> go_int \<Rightarrow> nat \<times> go_int" where
  "getnumN_loop N v i n =
     (if i < N \<and> isDigit v i
      then getnumN_loop N v (i + 1) (n * 10 + ucast (byte_of (v ! i) - byte_of CHR ''0''))
      else (i, n))"
  by pat_completeness auto
termination
  by (relation "measure (\<lambda>(N, v, i, n). N - i)") auto

declare getnumN_loop.simps [simp del]

definition getnumN :: "nat \<Rightarrow> bool \<Rightarrow> parser \<Rightarrow> go_int \<times> parser" where
  "getnumN N fixed p =
     (case getnumN_loop N (p_value p) 0 0 of
        (i, n) \<Rightarrow>
          if i = 0 \<or> (fixed \<and> i \<noteq> N) then (0, parseFailed p)
          else (n, p\<lparr>p_value := drop i (p_value p)\<rparr>))"

definition num :: "bool \<Rightarrow> parser \<Rightarrow> go_int \<times> parser" where
  "num fixed p = getnumN 2 fixed p"

definition num3 :: "bool \<Rightarrow> parser \<Rightarrow> go_int \<times> parser" where
  "num3 fixed p = getnumN 3 fixed p"

definition peekDigit :: "parser \<Rightarrow> parser" where
  "peekDigit p = (if \<not> isDigit (p_value p) 0 then parseFailed p else p)"

text \<open>\<^verbatim>\<open>lookup\<close>: the loop over the table, \<open>i\<close> being the index of the head of the list.\<close>

fun lookup_from :: "go_int \<Rightarrow> string list \<Rightarrow> parser \<Rightarrow> (go_int \<times> parser) option" where
  "lookup_from i [] p = Some (0, parseFailed p)"
| "lookup_from i (v # table) p =
     (if length v \<le> length (p_value p)
      then
        (case match (take (length v) (p_value p)) v of
           None \<Rightarrow> None
         | Some True \<Rightarrow> Some (i, p\<lparr>p_value := drop (length v) (p_value p)\<rparr>)
         | Some False \<Rightarrow> lookup_from (i + 1) table p)
      else lookup_from (i + 1) table p)"

definition lookup :: "string list \<Rightarrow> parser \<Rightarrow> (go_int \<times> parser) option" where
  "lookup table p = lookup_from 0 table p"

text \<open>The state of the loop of \<^verbatim>\<open>Parse\<close>: the parser and the variables \<open>year\<close>, \<open>month\<close>,
  \<open>day\<close>, \<open>yday\<close>.\<close>

type_synonym parse_state = "parser \<times> go_int \<times> go_int \<times> go_int \<times> go_int"

text \<open>The \<^verbatim>\<open>switch\<close> of one iteration, after \<^verbatim>\<open>p.setInst(i)\<close>: \<open>None\<close> is a panic,
  \<open>Inl\<close> the error of a \<^verbatim>\<open>return\<close> inside the switch.\<close>

definition parse_switch ::
    "string \<Rightarrow> string \<Rightarrow> inst \<Rightarrow> parse_state \<Rightarrow> (ParseError + parse_state) option" where
  "parse_switch alayout avalue i s =
     (case s of (p, year, month, day, yday) \<Rightarrow>
       (case op i of
          opLiteral \<Rightarrow> Some (Inr (accept (lit i) p, year, month, day, yday))
        | opYear \<Rightarrow>
            (case atoi 2 p of
               (year, p) \<Rightarrow>
                 Some (Inr (p, (if 69 \<le>s year then year + 1900 else year + 2000), month, day, yday)))
        | opUnderLongYear \<Rightarrow>
            (case atoi 4 (peekDigit (accept ''_'' p)) of
               (year, p) \<Rightarrow> Some (Inr (p, year, month, day, yday)))
        | opLongYear \<Rightarrow>
            (case atoi 4 (peekDigit p) of
               (year, p) \<Rightarrow> Some (Inr (p, year, month, day, yday)))
        | opMonth \<Rightarrow>
            (case lookup shortMonthNames p of
               None \<Rightarrow> None
             | Some (k, p) \<Rightarrow> Some (Inr (p, year, k + 1, day, yday)))
        | opLongMonth \<Rightarrow>
            (case lookup longMonthNames p of
               None \<Rightarrow> None
             | Some (k, p) \<Rightarrow> Some (Inr (p, year, k + 1, day, yday)))
        | opNumMonth \<Rightarrow>
            (case num False p of
               (month, p) \<Rightarrow>
                 if month \<le>s 0 \<or> 12 <s month
                 then map_option Inl (parser_err p alayout avalue (Text ''month out of range''))
                 else Some (Inr (p, year, month, day, yday)))
        | opZeroMonth \<Rightarrow>
            (case num True p of
               (month, p) \<Rightarrow>
                 if month \<le>s 0 \<or> 12 <s month
                 then map_option Inl (parser_err p alayout avalue (Text ''month out of range''))
                 else Some (Inr (p, year, month, day, yday)))
        | opWeekDay \<Rightarrow>
            (case lookup shortDayNames p of
               None \<Rightarrow> None
             | Some (k, p) \<Rightarrow> Some (Inr (p, year, month, day, yday)))
        | opLongWeekDay \<Rightarrow>
            (case lookup longDayNames p of
               None \<Rightarrow> None
             | Some (k, p) \<Rightarrow> Some (Inr (p, year, month, day, yday)))
        | opUnderDay \<Rightarrow>
            (case num False (skipByte CHR '' '' p) of
               (day, p) \<Rightarrow> Some (Inr (p, year, month, day, yday)))
        | opDay \<Rightarrow>
            (case num False p of
               (day, p) \<Rightarrow> Some (Inr (p, year, month, day, yday)))
        | opZeroDay \<Rightarrow>
            (case num True p of
               (day, p) \<Rightarrow> Some (Inr (p, year, month, day, yday)))
        | opUnderYearDay \<Rightarrow>
            (case num3 False (skipByte CHR '' '' (skipByte CHR '' '' p)) of
               (yday, p) \<Rightarrow> Some (Inr (p, year, month, day, yday)))
        | opZeroYearDay \<Rightarrow>
            (case num3 True p of
               (yday, p) \<Rightarrow> Some (Inr (p, year, month, day, yday)))
        | opInvalid \<Rightarrow> None))"

text \<open>One iteration of the loop of \<^verbatim>\<open>Parse\<close>: \<^verbatim>\<open>p.setInst(i)\<close>, the switch, and the
  check of \<^verbatim>\<open>p.hasErr\<close>.\<close>

definition parse_step ::
    "string \<Rightarrow> string \<Rightarrow> inst \<Rightarrow> parse_state \<Rightarrow> (ParseError + parse_state) option" where
  "parse_step alayout avalue i s =
     (case s of (p, year, month, day, yday) \<Rightarrow>
       (case parse_switch alayout avalue i (setInst i p, year, month, day, yday) of
          None \<Rightarrow> None
        | Some (Inl e) \<Rightarrow> Some (Inl e)
        | Some (Inr (p, year, month, day, yday)) \<Rightarrow>
            if p_hasErr p then map_option Inl (parser_err p alayout avalue (Text []))
            else Some (Inr (p, year, month, day, yday))))"

fun parse_loop ::
    "string \<Rightarrow> string \<Rightarrow> inst list \<Rightarrow> parse_state \<Rightarrow> (ParseError + parse_state) option" where
  "parse_loop alayout avalue [] s = Some (Inr s)"
| "parse_loop alayout avalue (i # prog) s =
     (case parse_step alayout avalue i s of
        None \<Rightarrow> None
      | Some (Inl e) \<Rightarrow> Some (Inl e)
      | Some (Inr s') \<Rightarrow> parse_loop alayout avalue prog s')"

text \<open>The last statements of \<^verbatim>\<open>Parse\<close>: the check of the day of the month, and \<^verbatim>\<open>Of\<close>.
  \<^verbatim>\<open>daysIn\<close> is only called when \<open>day < 1\<close> is false.\<close>

definition Parse_day ::
    "parser \<Rightarrow> string \<Rightarrow> string \<Rightarrow> go_int \<Rightarrow> go_int \<Rightarrow> go_int \<Rightarrow> (ParseError + Date) option" where
  "Parse_day p alayout avalue year month day =
     (if day <s 1
      then map_option Inl (parser_err p alayout avalue (Text ''day out of range''))
      else do {
        dim \<leftarrow> daysIn month year;
        (if dim <s day
         then map_option Inl (parser_err p alayout avalue (Text ''day out of range''))
         else map_option Inr (Of year month day))
      })"

text \<open>The part of \<^verbatim>\<open>Parse\<close> under the comment \<^verbatim>\<open>// Validate the parsed date\<close>, with the
  values of the variables after the loop.\<close>

definition Parse_validate ::
    "parser \<Rightarrow> string \<Rightarrow> string \<Rightarrow> go_int \<Rightarrow> go_int \<Rightarrow> go_int \<Rightarrow> go_int
      \<Rightarrow> (ParseError + Date) option" where
  "Parse_validate p alayout avalue year month day yday =
     (if 0 \<le>s yday
      then
        (case (if isLeap year
               then (if yday = 31 + 29 then (29, 2, yday)
                     else if 31 + 29 <s yday then (0, 0, yday - 1)
                     else (0, 0, yday))
               else (0, 0, yday)) of
           (d, m, yday) \<Rightarrow>
             if yday <s 1 \<or> 365 <s yday
             then map_option Inl (parser_err p alayout avalue (Text ''day-of-year out of range''))
             else do {
               (d, m) \<leftarrow>
                 (if m = 0
                  then do {
                    let m = quo (yday - 1) 31 + 1;
                    db \<leftarrow> index daysBefore m;
                    let m = (if db <s yday then m + 1 else m);
                    db' \<leftarrow> index daysBefore (m - 1);
                    Some (yday - db', m)
                  }
                  else Some (d, m));
               (if 0 \<le>s month \<and> month \<noteq> m
                then map_option Inl
                       (parser_err p alayout avalue (Text ''day-of-year does not match month''))
                else if 0 \<le>s day \<and> day \<noteq> d
                then map_option Inl
                       (parser_err p alayout avalue (Text ''day-of-year does not match day''))
                else Parse_day p alayout avalue year m d)
             })
      else
        Parse_day p alayout avalue year
          (if month <s 0 then 1 else month) (if day <s 0 then 1 else day))"

definition Parse :: "string \<Rightarrow> string \<Rightarrow> (ParseError + Date) option" where
  "Parse layout v =
     (let p = newParser v;
          alayout = layout;
          avalue = v
      in do {
        prog \<leftarrow> memo_Get layout;
        r \<leftarrow> parse_loop alayout avalue prog (p, 0, - 1, - 1, - 1);
        (case r of
           Inl e \<Rightarrow> Some (Inl e)
         | Inr (p, year, month, day, yday) \<Rightarrow>
             if 0 < length (p_value p)
             then map_option Inl (parser_err p alayout avalue (ExtraText (p_value p)))
             else Parse_validate (finish p) alayout avalue year month day yday)
      })"

section \<open>Serialisation (date.go)\<close>

text \<open>\<^verbatim>\<open>binary.PutUvarint\<close>, \<^verbatim>\<open>binary.PutVarint\<close>, \<^verbatim>\<open>binary.Uvarint\<close> and \<^verbatim>\<open>binary.Varint\<close> of
  the standard library (\<^verbatim>\<open>encoding/binary\<close>). \<open>PutUvarint\<close> gives the bytes that are
  written; the count that \<^verbatim>\<open>Uvarint\<close> returns is small and modelled as an \<^typ>\<open>int\<close>.\<close>

definition MaxVarintLen64 :: nat where
  "MaxVarintLen64 = 10"

function PutUvarint :: "uint64 \<Rightarrow> byte list" where
  "PutUvarint x =
     (if 0x80 \<le> x then (ucast x OR 0x80) # PutUvarint (drop_bit 7 x) else [ucast x])"
  by pat_completeness auto
termination
proof (relation "measure unat")
  show "wf (measure unat)" by simp
next
  fix x :: uint64
  assume "0x80 \<le> x"
  then have "0 < unat x"
    by (simp add: word_le_nat_alt)
  then have "unat x div 2 ^ 7 < unat x"
    by (intro div_less_dividend) simp_all
  then show "(drop_bit 7 x, x) \<in> measure unat"
    by (simp add: drop_bit_eq_div unat_div)
qed

declare PutUvarint.simps [simp del]

definition PutVarint :: "go_int \<Rightarrow> byte list" where
  "PutVarint x =
     (let ux = push_bit 1 x;
          ux = (if x <s 0 then NOT ux else ux)
      in PutUvarint ux)"

text \<open>The loop of \<^verbatim>\<open>Uvarint\<close> from index \<open>i\<close>, with the accumulator \<open>x\<close> and the shift
  \<open>s\<close>.\<close>

fun Uvarint_loop :: "byte list \<Rightarrow> nat \<Rightarrow> uint64 \<Rightarrow> nat \<Rightarrow> uint64 \<times> int" where
  "Uvarint_loop [] i x s = (0, 0)"
| "Uvarint_loop (b # buf) i x s =
     (if i = MaxVarintLen64 then (0, - (int i + 1))
      else if b < 0x80
      then
        if i = MaxVarintLen64 - 1 \<and> 1 < b then (0, - (int i + 1))
        else (x OR push_bit s (ucast b), int i + 1)
      else Uvarint_loop buf (i + 1) (x OR push_bit s (ucast (b AND 0x7f))) (s + 7))"

definition Uvarint :: "byte list \<Rightarrow> uint64 \<times> int" where
  "Uvarint buf = Uvarint_loop buf 0 0 0"

definition Varint :: "byte list \<Rightarrow> go_int \<times> int" where
  "Varint buf =
     (case Uvarint buf of
        (ux, n) \<Rightarrow>
          let x = drop_bit 1 ux;
              x = (if ux AND 1 \<noteq> 0 then NOT x else x)
          in (x, n))"

text \<open>\<^verbatim>\<open>MarshalBinary\<close> writes into a buffer of \<^verbatim>\<open>binary.MaxVarintLen64\<close> bytes; writing
  past its end would panic (\<open>None\<close>).\<close>

definition MarshalBinary :: "Date \<Rightarrow> byte list option" where
  "MarshalBinary d =
     (let b = PutVarint d in if length b \<le> MaxVarintLen64 then Some b else None)"

text \<open>The methods on \<^verbatim>\<open>*Date\<close> take the value of the receiver and return the error
  (\<open>None\<close> for \<^verbatim>\<open>nil\<close>) with the value of the receiver afterwards. \<^verbatim>\<open>int64(int(v)) != v\<close>
  converts between two 64-bit types.\<close>

definition UnmarshalBinary :: "Date \<Rightarrow> byte list \<Rightarrow> string option \<times> Date" where
  "UnmarshalBinary d b =
     (case Varint b of
        (v, i) \<Rightarrow>
          if i = 0 then (Some ''encoded date truncated'', d)
          else if i < 0 \<or> (ucast (ucast v :: go_int) :: 64 word) \<noteq> v
          then (Some ''encoded date overflows int'', d)
          else if i \<noteq> int (length b) then (Some ''extra data after date'', d)
          else (None, v))"

definition Date_String :: "Date \<Rightarrow> string option" where
  "Date_String d = Format d RFC3339"

definition MarshalText :: "Date \<Rightarrow> string option" where
  "MarshalText d = Date_String d"

text \<open>\<^verbatim>\<open>UnmarshalText\<close>; the outer \<open>None\<close> is a panic inside \<^verbatim>\<open>Parse\<close>.\<close>

definition UnmarshalText :: "Date \<Rightarrow> string \<Rightarrow> (ParseError option \<times> Date) option" where
  "UnmarshalText d b =
     (case Parse RFC3339 b of
        None \<Rightarrow> None
      | Some (Inr v) \<Rightarrow> Some (None, v)
      | Some (Inl err) \<Rightarrow> Some (Some err, d))"

text \<open>The surface text of a compiled layout: the concatenation of \<^verbatim>\<open>inst.String\<close> over
  the instructions (the literal's text, or the operator's token).\<close>

fun prog_text :: "inst list \<Rightarrow> string option" where
  "prog_text [] = Some []"
| "prog_text (i # prog) = do { a \<leftarrow> inst_String i; b \<leftarrow> prog_text prog; Some (a @ b) }"

section \<open>The calendar over the integers\<close>

text \<open>The arithmetic of \<^verbatim>\<open>absDate\<close> and \<^verbatim>\<open>daysSinceEpoch\<close> read over the mathematical integers,
  for the proofs: \<open>cyc A\<close> is the pair of the year (counted from \<^verbatim>\<open>absoluteZeroYear\<close>) and
  the day in the year that \<^verbatim>\<open>absDate\<close> computes from the absolute day \<open>A\<close>, statement by
  statement; \<open>dse Y\<close> is the number of days before the year \<open>Y\<close> as \<^verbatim>\<open>daysSinceEpoch\<close>
  computes it; \<open>leapY Y\<close> says that the year \<open>Y\<close> (counted from \<^verbatim>\<open>absoluteZeroYear\<close>, which is
  1 modulo 400) is a leap year.\<close>

definition cyc :: "int \<Rightarrow> int \<times> int" where
  "cyc A =
     (let d = A;
          n = d div 146097;
          y = 400 * n;
          d = d - 146097 * n;
          n = d div 36524;
          n = n - n div 4;
          y = y + 100 * n;
          d = d - 36524 * n;
          n = d div 1461;
          y = y + 4 * n;
          d = d - 1461 * n;
          n = d div 365;
          n = n - n div 4;
          y = y + n;
          d = d - 365 * n
      in (y, d))"

definition dse :: "int \<Rightarrow> int" where
  "dse Y =
     146097 * (Y div 400) + 36524 * (Y mod 400 div 100) + 1461 * (Y mod 100 div 4)
       + 365 * (Y mod 4)"

definition leapY :: "int \<Rightarrow> bool" where
  "leapY Y \<longleftrightarrow> 4 dvd (Y + 1) \<and> (\<not> 100 dvd (Y + 1) \<or> 400 dvd (Y + 1))"

definition yearlen :: "int \<Rightarrow> int" where
  "yearlen Y = (if leapY Y then 366 else 365)"

text \<open>The second half of \<^verbatim>\<open>absDate\<close> (after \<^verbatim>\<open>if !full\<close>) and \<^verbatim>\<open>daysIn\<close>, as functions of
  whether the year is a leap year.\<close>

definition monthDay :: "bool \<Rightarrow> go_int \<Rightarrow> (go_int \<times> go_int) option" where
  "monthDay leap yday =
     (let day = yday in
        if leap \<and> \<not> 31 + 29 - 1 <s day \<and> day = 31 + 29 - 1
        then Some (2, 29)
        else
          let day = (if leap \<and> 31 + 29 - 1 <s day then day - 1 else day);
              month = quo day 31
          in do {
            end_m \<leftarrow> index daysBefore (month + 1);
            (if end_m \<le>s day
             then Some (month + 1 + 1, day - end_m + 1)
             else do {
               begin_m \<leftarrow> index daysBefore month;
               Some (month + 1, day - begin_m + 1)
             })
          })"

definition daysIn_leap :: "bool \<Rightarrow> go_int \<Rightarrow> go_int option" where
  "daysIn_leap leap m =
     (if m = 2 \<and> leap then Some 29
      else do {
        a \<leftarrow> index daysBefore m;
        b \<leftarrow> index daysBefore (m - 1);
        Some (a - b)
      })"

text \<open>What the proofs check of the month and day, day by day: \<open>md_fwd leap k\<close> says that
  the month and day that \<^verbatim>\<open>absDate\<close> finds for the day \<open>k\<close> of the year (from 0) are in range
  and are mapped back to \<open>k\<close> by the sum in \<^verbatim>\<open>Of\<close>; \<open>md_bwd leap m\<close> says that for each day
  of the month \<open>m\<close> the sum in \<^verbatim>\<open>Of\<close> is a day of the year from which \<^verbatim>\<open>absDate\<close> finds the
  same month and day.\<close>

definition md_fwd :: "bool \<Rightarrow> int \<Rightarrow> bool" where
  "md_fwd leap k =
     (case monthDay leap (word_of_int k) of
        None \<Rightarrow> False
      | Some (m, d) \<Rightarrow>
          1 \<le>s m \<and> m \<le>s 12 \<and> 1 \<le>s d \<and>
          (case daysIn_leap leap m of None \<Rightarrow> False | Some n \<Rightarrow> d \<le>s n) \<and>
          (case index daysBefore (m - 1) of
             None \<Rightarrow> False
           | Some db \<Rightarrow> db + (if leap \<and> 3 \<le>s m then 1 else 0) + (d - 1) = word_of_int k))"

definition md_bwd :: "bool \<Rightarrow> int \<Rightarrow> bool" where
  "md_bwd leap m =
     (case daysIn_leap leap (word_of_int m) of
        None \<Rightarrow> False
      | Some n \<Rightarrow>
          n \<le>s 31 \<and>
          (case index daysBefore (word_of_int m - 1) of
             None \<Rightarrow> False
           | Some db \<Rightarrow>
               list_all
                 (\<lambda>d. if word_of_int d \<le>s n
                      then
                        let k = db + (if leap \<and> 3 \<le>s (word_of_int m :: 64 word) then 1 else 0)
                                  + (word_of_int d - 1)
                        in 0 \<le>s k \<and> k <s (if leap then 366 else 365) \<and>
                           monthDay leap k = Some (word_of_int m, word_of_int d)
                      else True)
                 [1..31]))"

text \<open>The month and day that \<^verbatim>\<open>Parse\<close> computes from a day of the year, under the comment
  \<^verbatim>\<open>// Validate the parsed date\<close>, as a function of whether the year is a leap year. The
  outer \<open>None\<close> is the error \<^verbatim>\<open>day-of-year out of range\<close>, the inner one a panic of
  \<^verbatim>\<open>daysBefore[m]\<close>. \<open>yd_ok leap k\<close> says that for the day \<open>k\<close> of the year (from 1) this is
  the month and day that \<^verbatim>\<open>absDate\<close> finds for the day \<open>k - 1\<close> (from 0).\<close>

definition ydayMonthDay :: "bool \<Rightarrow> go_int \<Rightarrow> (go_int \<times> go_int) option option" where
  "ydayMonthDay leap yday0 =
     (case (if leap
            then (if yday0 = 31 + 29 then (29, 2, yday0)
                  else if 31 + 29 <s yday0 then (0, 0, yday0 - 1)
                  else (0, 0, yday0))
            else (0, 0, yday0)) of
        (d, m, yday) \<Rightarrow>
          if yday <s 1 \<or> 365 <s yday then None
          else Some
            (if m = 0
             then do {
               let m = quo (yday - 1) 31 + 1;
               db \<leftarrow> index daysBefore m;
               let m = (if db <s yday then m + 1 else m);
               db' \<leftarrow> index daysBefore (m - 1);
               Some (m, yday - db')
             }
             else Some (m, d)))"

definition yd_ok :: "bool \<Rightarrow> int \<Rightarrow> bool" where
  "yd_ok leap k \<longleftrightarrow>
     monthDay leap (word_of_int k - 1) \<noteq> None \<and>
     ydayMonthDay leap (word_of_int k) = Some (monthDay leap (word_of_int k - 1))"

text \<open>Equality of two strings ignoring case, stated apart from the code, for comparison
  with \<^verbatim>\<open>match\<close>: \<open>lower_case\<close> is the byte of a character, an upper-case ASCII letter
  \<^verbatim>\<open>A\<close> to \<^verbatim>\<open>Z\<close> being replaced by its lower-case letter and every other byte kept; two
  strings are equal ignoring case when they agree byte by byte after that.\<close>

definition lower_case :: "char \<Rightarrow> byte" where
  "lower_case c =
     (if byte_of CHR ''A'' \<le> byte_of c \<and> byte_of c \<le> byte_of CHR ''Z''
      then byte_of c + (byte_of CHR ''a'' - byte_of CHR ''A'')
      else byte_of c)"

definition equal_ignoring_case :: "string \<Rightarrow> string \<Rightarrow> bool" where
  "equal_ignoring_case s t \<longleftrightarrow> map lower_case s = map lower_case t"

text \<open>A well-formed varint, stated apart from the code, for comparison with
  \<^verbatim>\<open>UnmarshalBinary\<close>: at most ten bytes, every byte but the last with its top bit set
  (a continuation byte), the last byte without, and a tenth byte that is 0 or 1 (the
  one bit that is left of the 64).\<close>

definition wellformed_varint :: "byte list \<Rightarrow> bool" where
  "wellformed_varint b \<longleftrightarrow>
     b \<noteq> [] \<and> length b \<le> 10 \<and> list_all (\<lambda>c. 0x80 \<le> c) (butlast b) \<and> last b < 0x80 \<and>
     (length b = 10 \<longrightarrow> last b \<le> 1)"

section \<open>Constants\<close>

lemma internalToAbsolute_eq: "internalToAbsolute = 106751990353932"
  by (simp add: internalToAbsolute_def absoluteToInternal_def)

lemmas calendar_defs =
  Of_def norm_def quo_def rem_def daysSinceEpoch_def isLeap_def index_def daysBefore_def
  internalToAbsolute_eq absoluteZeroYear_def daysPer400Years_def daysPer100Years_def
  daysPer4Years_def word_sless_alt word_sle_eq

section \<open>Words and integers\<close>

lemma uint_woi64: "0 \<le> x \<Longrightarrow> x < 2 ^ 64 \<Longrightarrow> uint (word_of_int x :: 64 word) = x"
  by (simp add: uint_word_of_int_eq take_bit_int_eq_self)

lemma sint_woi64: "- (2 ^ 63) \<le> x \<Longrightarrow> x < 2 ^ 63 \<Longrightarrow> sint (word_of_int x :: 64 word) = x"
  by (simp add: sint_sbintrunc' signed_take_bit_int_eq_self)

lemma woi_div64:
  assumes "0 \<le> x" "x < 2 ^ 64" "0 \<le> k" "k < 2 ^ 64"
  shows "(word_of_int x :: 64 word) div word_of_int k = word_of_int (x div k)"
proof -
  have "uint ((word_of_int x :: 64 word) div word_of_int k) = x div k"
    using assms by (simp add: uint_div uint_woi64)
  then show ?thesis
    by (metis word_of_int_uint)
qed

lemma woi_div64_numeral:
  assumes "0 \<le> x" "x < 2 ^ 64" "(numeral k :: int) < 2 ^ 64"
  shows "(word_of_int x :: 64 word) div numeral k = word_of_int (x div numeral k)"
  using woi_div64 [OF assms(1,2) _ assms(3)] by simp

lemma woi_drop_bit2:
  assumes "0 \<le> x" "x < 2 ^ 64"
  shows "drop_bit 2 (word_of_int x :: 64 word) = word_of_int (x div 4)"
  using woi_div64_numeral [OF assms, of "num.Bit0 (num.Bit0 num.One)"]
  by (simp add: drop_bit_eq_div)

lemma quo_woi64:
  assumes "0 \<le> x" "x < 2 ^ 63" "0 < k" "k < 2 ^ 63"
  shows "quo (word_of_int x) (word_of_int k) = word_of_int (x div k)"
  using assms by (simp add: quo_def sint_woi64 signed_divide_int_def sgn_if)

lemma quo_woi64_numeral:
  assumes "0 \<le> x" "x < 2 ^ 63" "(numeral k :: int) < 2 ^ 63"
  shows "quo (word_of_int x) (numeral k) = word_of_int (x div numeral k)"
  using quo_woi64 [OF assms(1,2) _ assms(3)] by simp

lemma sless_woi64:
  assumes "- (2 ^ 63) \<le> x" "x < 2 ^ 63" "- (2 ^ 63) \<le> y" "y < 2 ^ 63"
  shows "(word_of_int x :: 64 word) <s word_of_int y \<longleftrightarrow> x < y"
    and "(word_of_int x :: 64 word) \<le>s word_of_int y \<longleftrightarrow> x \<le> y"
    and "(word_of_int x :: 64 word) = word_of_int y \<longleftrightarrow> x = y"
  using assms by (simp_all add: word_sless_alt word_sle_eq sint_woi64) (metis sint_woi64 assms)

lemma rem_eq_0_iff:
  assumes "0 < k" "k < 2 ^ 63"
  shows "rem w (word_of_int k) = 0 \<longleftrightarrow> k dvd sint w"
proof -
  have sk: "sint (word_of_int k :: 64 word) = k"
    using assms by (simp add: sint_woi64)
  have "\<bar>sint w smod k\<bar> < k"
    using smod_int_range [of k "sint w"] assms by auto
  then have r: "- (2 ^ 63) \<le> sint w smod k" "sint w smod k < 2 ^ 63"
    using assms by linarith+
  have "rem w (word_of_int k) = 0 \<longleftrightarrow> (word_of_int (sint w smod k) :: 64 word) = word_of_int 0"
    unfolding rem_def sk by simp
  also have "\<dots> \<longleftrightarrow> sint w smod k = 0"
    using r by (subst sless_woi64(3)) simp_all
  also have "\<dots> \<longleftrightarrow> k dvd sint w"
    using assms by (simp add: signed_modulo_int_def sgn_if abs_if mod_eq_0_iff_dvd)
  finally show ?thesis .
qed

lemma isLeap_iff: "isLeap w \<longleftrightarrow> 4 dvd sint w \<and> (\<not> 100 dvd sint w \<or> 400 dvd sint w)"
  using rem_eq_0_iff [of 4 w] rem_eq_0_iff [of 100 w] rem_eq_0_iff [of 400 w]
  by (simp add: isLeap_def)

section \<open>The cycles of the calendar\<close>

lemma div_digit: "0 \<le> r \<Longrightarrow> r < k \<Longrightarrow> x = k * q + r \<Longrightarrow> x div k = q" for x k q r :: int
  by (simp add: int_div_pos_eq)

lemma mod_digit: "0 \<le> r \<Longrightarrow> r < k \<Longrightarrow> x = k * q + r \<Longrightarrow> x mod k = r" for x k q r :: int
  by (simp add: int_mod_pos_eq)

lemma dvd_digit: "0 \<le> r \<Longrightarrow> r < k \<Longrightarrow> x = k * q + r \<Longrightarrow> k dvd x \<longleftrightarrow> r = 0" for x k q r :: int
  using mod_digit [of r k x q] by (auto simp: dvd_eq_mod_eq_0)

lemma year_digits:
  fixes a b c e :: int
  assumes "0 \<le> b" "b \<le> 3" "0 \<le> c" "c \<le> 24" "0 \<le> e" "e \<le> 3"
  defines "Y \<equiv> 400 * a + 100 * b + 4 * c + e"
  shows "dse Y = 146097 * a + 36524 * b + 1461 * c + 365 * e"
    and "leapY Y \<longleftrightarrow> e = 3 \<and> (c \<noteq> 24 \<or> b = 3)"
proof -
  have 1: "Y div 400 = a"
    using assms by (intro div_digit [where r = "100 * b + 4 * c + e"]) simp_all
  have 2: "Y mod 400 = 100 * b + 4 * c + e"
    using assms by (intro mod_digit [where q = a]) simp_all
  have 3: "(100 * b + 4 * c + e) div 100 = b"
    using assms by (intro div_digit [where r = "4 * c + e"]) simp_all
  have 4: "Y mod 100 = 4 * c + e"
    using assms by (intro mod_digit [where q = "4 * a + b"]) simp_all
  have 5: "(4 * c + e) div 4 = c"
    using assms by (intro div_digit [where r = e]) simp_all
  have 6: "Y mod 4 = e"
    using assms by (intro mod_digit [where q = "100 * a + 25 * b + c"]) simp_all
  show "dse Y = 146097 * a + 36524 * b + 1461 * c + 365 * e"
    by (simp add: dse_def 1 2 3 4 5 6)
  have d4: "4 dvd (Y + 1) \<longleftrightarrow> e = 3"
  proof (cases "e = 3")
    case True
    then have "Y + 1 = 4 * (100 * a + 25 * b + c + 1)" by (simp add: Y_def)
    then show ?thesis using True by simp
  next
    case False
    then show ?thesis
      using assms dvd_digit [of "e + 1" 4 "Y + 1" "100 * a + 25 * b + c"] by simp
  qed
  have d100: "100 dvd (Y + 1) \<longleftrightarrow> e = 3 \<and> c = 24"
  proof (cases "e = 3 \<and> c = 24")
    case True
    then have "Y + 1 = 100 * (4 * a + b + 1)" by (simp add: Y_def)
    then show ?thesis using True by simp
  next
    case False
    then have "4 * c + e + 1 < 100" using assms by auto
    then show ?thesis
      using False assms dvd_digit [of "4 * c + e + 1" 100 "Y + 1" "4 * a + b"] by auto
  qed
  have d400: "400 dvd (Y + 1) \<longleftrightarrow> e = 3 \<and> c = 24 \<and> b = 3"
  proof (cases "e = 3 \<and> c = 24 \<and> b = 3")
    case True
    then have "Y + 1 = 400 * (a + 1)" by (simp add: Y_def)
    then show ?thesis using True by simp
  next
    case False
    then have "100 * b + 4 * c + e + 1 < 400" using assms by auto
    then show ?thesis
      using False assms dvd_digit [of "100 * b + 4 * c + e + 1" 400 "Y + 1" a] by auto
  qed
  show "leapY Y \<longleftrightarrow> e = 3 \<and> (c \<noteq> 24 \<or> b = 3)"
    unfolding leapY_def d4 d100 d400 by auto
qed

lemma digits_of_year:
  fixes Y :: int
  obtains a b c e where "Y = 400 * a + 100 * b + 4 * c + e"
    "0 \<le> b" "b \<le> 3" "0 \<le> c" "c \<le> 24" "0 \<le> e" "e \<le> 3" "a = Y div 400"
proof -
  define a where "a = Y div 400"
  define m where "m = Y mod 400"
  define b where "b = m div 100"
  define m2 where "m2 = m mod 100"
  define c where "c = m2 div 4"
  define e where "e = m2 mod 4"
  have Y: "Y = 400 * a + m" and m: "0 \<le> m" "m < 400"
    by (simp_all add: a_def m_def)
  have m': "m = 100 * b + m2" and m2: "0 \<le> m2" "m2 < 100"
    by (simp_all add: b_def m2_def)
  have m2': "m2 = 4 * c + e" and e: "0 \<le> e" "e < 4"
    by (simp_all add: c_def e_def)
  have b: "0 \<le> b" "b \<le> 3"
    using m m' m2 by linarith+
  have c: "0 \<le> c" "c \<le> 24"
    using m2 m2' e by linarith+
  have e': "e \<le> 3" using e by linarith
  have Yeq: "Y = 400 * a + 100 * b + 4 * c + e"
    using Y m' m2' by linarith
  show thesis
    by (rule that [OF Yeq b c e(1) e' a_def])
qed

lemma dse_Suc: "dse (Y + 1) = dse Y + yearlen Y"
proof -
  obtain a b c e where Y: "Y = 400 * a + 100 * b + 4 * c + e"
    and d: "0 \<le> b" "b \<le> 3" "0 \<le> c" "c \<le> 24" "0 \<le> e" "e \<le> 3"
    by (rule digits_of_year)
  have yd: "dse Y = 146097 * a + 36524 * b + 1461 * c + 365 * e"
    "leapY Y \<longleftrightarrow> e = 3 \<and> (c \<noteq> 24 \<or> b = 3)"
    unfolding Y by (rule year_digits [OF d])+
  consider (e) "e < 3" | (c) "e = 3" "c < 24" | (b) "e = 3" "c = 24" "b < 3" | (a) "e = 3" "c = 24" "b = 3"
    using d by linarith
  then show ?thesis
  proof cases
    case e
    have "Y + 1 = 400 * a + 100 * b + 4 * c + (e + 1)" by (simp add: Y )
    then have "dse (Y + 1) = dse (400 * a + 100 * b + 4 * c + (e + 1))" by (simp only:)
    also have "\<dots> = 146097 * a + 36524 * b + 1461 * c + 365 * (e + 1)"
      using d e by (intro year_digits) simp_all
    finally show ?thesis using yd e by (simp add: yearlen_def)
  next
    case c
    have "Y + 1 = 400 * a + 100 * b + 4 * (c + 1) + 0" by (simp add: Y c)
    then have "dse (Y + 1) = dse (400 * a + 100 * b + 4 * (c + 1) + 0)" by (simp only:)
    also have "\<dots> = 146097 * a + 36524 * b + 1461 * (c + 1) + 365 * 0"
      using d c by (intro year_digits) simp_all
    finally show ?thesis using yd c by (simp add: yearlen_def)
  next
    case b
    have "Y + 1 = 400 * a + 100 * (b + 1) + 4 * 0 + 0" by (simp add: Y b)
    then have "dse (Y + 1) = dse (400 * a + 100 * (b + 1) + 4 * 0 + 0)" by (simp only:)
    also have "\<dots> = 146097 * a + 36524 * (b + 1) + 1461 * 0 + 365 * 0"
      using d b by (intro year_digits) simp_all
    finally show ?thesis using yd b by (simp add: yearlen_def)
  next
    case a
    have "Y + 1 = 400 * (a + 1) + 100 * 0 + 4 * 0 + 0" by (simp add: Y a)
    then have "dse (Y + 1) = dse (400 * (a + 1) + 100 * 0 + 4 * 0 + 0)" by (simp only:)
    also have "\<dots> = 146097 * (a + 1) + 36524 * 0 + 1461 * 0 + 365 * 0"
      by (intro year_digits) simp_all
    finally show ?thesis using yd a by (simp add: yearlen_def)
  qed
qed

lemma dse_0: "dse 0 = 0"
  by (simp add: dse_def)

lemma yearlen_pos: "365 \<le> yearlen Y" "yearlen Y \<le> 366"
  by (simp_all add: yearlen_def)

lemma day_repr_nat: "\<exists>Y r. 0 \<le> Y \<and> 0 \<le> r \<and> r < yearlen Y \<and> int n = dse Y + r"
proof (induction n)
  case 0
  have "0 \<le> (0::int) \<and> 0 \<le> (0::int) \<and> 0 < yearlen 0 \<and> int 0 = dse 0 + 0"
    using yearlen_pos [of 0] by (simp add: dse_0)
  then show ?case by blast
next
  case (Suc n)
  then obtain Y r where *: "0 \<le> Y" "0 \<le> r" "r < yearlen Y" "int n = dse Y + r"
    by blast
  show ?case
  proof (cases "r + 1 < yearlen Y")
    case True
    with * have "0 \<le> Y \<and> 0 \<le> r + 1 \<and> r + 1 < yearlen Y \<and> int (Suc n) = dse Y + (r + 1)"
      by simp
    then show ?thesis by blast
  next
    case False
    with * have "r + 1 = yearlen Y" by simp
    with * yearlen_pos [of "Y + 1"]
    have "0 \<le> Y + 1 \<and> 0 \<le> (0::int) \<and> 0 < yearlen (Y + 1) \<and> int (Suc n) = dse (Y + 1) + 0"
      by (simp add: dse_Suc)
    then show ?thesis by blast
  qed
qed

lemma day_repr:
  assumes "0 \<le> A"
  obtains Y r where "0 \<le> Y" "0 \<le> r" "r < yearlen Y" "A = dse Y + r"
  using day_repr_nat [of "nat A"] assms by auto

lemma cyc_eqI:
  assumes "n1 = A div 146097" "d1 = A - 146097 * n1"
    "n2 = d1 div 36524" "b = n2 - n2 div 4" "d2 = d1 - 36524 * b"
    "n3 = d2 div 1461" "d3 = d2 - 1461 * n3"
    "n4 = d3 div 365" "e = n4 - n4 div 4"
  shows "cyc A = (400 * n1 + 100 * b + 4 * n3 + e, d3 - 365 * e)"
  unfolding cyc_def Let_def assms by (rule refl)

lemma cyc_digits:
  fixes a b c e r :: int
  assumes d: "0 \<le> b" "b \<le> 3" "0 \<le> c" "c \<le> 24" "0 \<le> e" "e \<le> 3"
    and r: "0 \<le> r" "r < 365 \<or> (r = 365 \<and> e = 3 \<and> (c \<noteq> 24 \<or> b = 3))"
  shows "cyc (146097 * a + 36524 * b + 1461 * c + 365 * e + r) = (400 * a + 100 * b + 4 * c + e, r)"
proof -
  define A where "A = 146097 * a + 36524 * b + 1461 * c + 365 * e + r"
  define d1 where "d1 = 36524 * b + 1461 * c + 365 * e + r"
  define d2 where "d2 = 1461 * c + 365 * e + r"
  define d3 where "d3 = 365 * e + r"
  have s1: "A div 146097 = a"
    using d r by (intro div_digit [where r = d1]) (auto simp: A_def d1_def)
  have s2: "d1 = A - 146097 * a"
    by (simp add: A_def d1_def)
  have d2_le: "d2 \<le> 36524" "0 \<le> d2" using d r by (auto simp: d2_def)
  define n2 where "n2 = d1 div 36524"
  have s3: "n2 - n2 div 4 = b"
  proof (cases "d2 = 36524")
    case True
    have "1461 * c \<le> 35064" "365 * e \<le> 1095" using d by simp_all
    with True r have "b = 3" unfolding d2_def by linarith
    have "d1 div 36524 = 4"
      using True \<open>b = 3\<close> by (intro div_digit [where r = 0]) (simp_all add: d1_def d2_def)
    then show ?thesis using \<open>b = 3\<close> by (simp add: n2_def)
  next
    case False
    have "d1 div 36524 = b"
      using False d2_le by (intro div_digit [where r = d2]) (simp_all add: d1_def d2_def)
    moreover have "b div 4 = 0" using d by simp
    ultimately show ?thesis by (simp add: n2_def)
  qed
  have s4: "d2 = d1 - 36524 * b"
    by (simp add: d1_def d2_def)
  have s5: "d2 div 1461 = c"
    using d r by (intro div_digit [where r = d3]) (auto simp: d2_def d3_def)
  have s6: "d3 = d2 - 1461 * c"
    by (simp add: d2_def d3_def)
  define n4 where "n4 = d3 div 365"
  have s7: "n4 - n4 div 4 = e"
  proof (cases "r = 365")
    case True
    then have "e = 3" using r by simp
    have "d3 div 365 = 4"
      using True \<open>e = 3\<close> by (intro div_digit [where r = 0]) (simp_all add: d3_def)
    then show ?thesis using \<open>e = 3\<close> by (simp add: n4_def)
  next
    case False
    have "d3 div 365 = e"
      using False r by (intro div_digit [where r = r]) (simp_all add: d3_def)
    moreover have "e div 4 = 0" using d by simp
    ultimately show ?thesis by (simp add: n4_def)
  qed
  have "cyc A = (400 * a + 100 * b + 4 * c + e, d3 - 365 * e)"
    by (rule cyc_eqI [OF s1 [symmetric] s2 n2_def s3 [symmetric] s4 s5 [symmetric] s6 n4_def
          s7 [symmetric]])
  then show ?thesis
    by (simp add: A_def d3_def)
qed

lemma cyc_inverse:
  assumes "0 \<le> r" "r < yearlen Y"
  shows "cyc (dse Y + r) = (Y, r)"
proof -
  obtain a b c e where Y: "Y = 400 * a + 100 * b + 4 * c + e"
    and d: "0 \<le> b" "b \<le> 3" "0 \<le> c" "c \<le> 24" "0 \<le> e" "e \<le> 3"
    by (rule digits_of_year)
  have yd: "dse Y = 146097 * a + 36524 * b + 1461 * c + 365 * e"
    "leapY Y \<longleftrightarrow> e = 3 \<and> (c \<noteq> 24 \<or> b = 3)"
    unfolding Y by (rule year_digits [OF d])+
  have "r < 365 \<or> (r = 365 \<and> e = 3 \<and> (c \<noteq> 24 \<or> b = 3))"
    using assms yd(2) by (auto simp: yearlen_def split: if_splits)
  from cyc_digits [OF d assms(1) this, of a] show ?thesis
    unfolding yd(1) unfolding Y .
qed

lemma cyc_sound:
  assumes "0 \<le> A"
  shows "dse (fst (cyc A)) + snd (cyc A) = A"
    and "0 \<le> fst (cyc A)" and "0 \<le> snd (cyc A)" and "snd (cyc A) < yearlen (fst (cyc A))"
proof -
  obtain Y r where *: "0 \<le> Y" "0 \<le> r" "r < yearlen Y" "A = dse Y + r"
    using assms by (rule day_repr)
  then have "cyc A = (Y, r)" by (simp add: cyc_inverse)
  with * show "dse (fst (cyc A)) + snd (cyc A) = A"
    and "0 \<le> fst (cyc A)" and "0 \<le> snd (cyc A)" and "snd (cyc A) < yearlen (fst (cyc A))"
    by simp_all
qed


section \<open>From the words to the integers\<close>

lemma daysIn_leap: "daysIn m year = daysIn_leap (isLeap year) m"
  by (simp add: daysIn_def daysIn_leap_def)

lemma woi_sub_mult:
  "(word_of_int x :: 64 word) - numeral k * word_of_int y = word_of_int (x - numeral k * y)"
  by simp

lemma absDate_cyc:
  assumes "0 \<le> A" "A < 2 ^ 64"
  shows "absDate (word_of_int A) full =
           (let year = word_of_int (fst (cyc A)) + absoluteZeroYear;
                yday = word_of_int (snd (cyc A))
            in if \<not> full then Some (year, 0, 0, yday)
               else map_option (\<lambda>(m, d). (year, m, d, yday)) (monthDay (isLeap year) yday))"
proof -
  define n1 where "n1 = A div 146097"
  define d1 where "d1 = A - 146097 * n1"
  define n2 where "n2 = d1 div 36524"
  define b where "b = n2 - n2 div 4"
  define d2 where "d2 = d1 - 36524 * b"
  define n3 where "n3 = d2 div 1461"
  define d3 where "d3 = d2 - 1461 * n3"
  define n4 where "n4 = d3 div 365"
  define e where "e = n4 - n4 div 4"
  have d1: "0 \<le> d1" "d1 < 146097"
    unfolding d1_def n1_def by (simp_all add: minus_mult_div_eq_mod)
  have n2: "0 \<le> n2" "36524 * n2 \<le> d1" "n2 \<le> 4"
    using d1 unfolding n2_def by (simp_all add: pos_imp_zdiv_nonneg_iff)
  have b: "0 \<le> b" "b \<le> n2"
    using n2 unfolding b_def by linarith+
  have d2: "0 \<le> d2" "d2 \<le> d1"
    using b n2 unfolding d2_def by linarith+
  have n3: "0 \<le> n3" "1461 * n3 \<le> d2"
    using d2 unfolding n3_def by (simp_all add: pos_imp_zdiv_nonneg_iff)
  have d3: "0 \<le> d3" "d3 < 1461"
    unfolding d3_def n3_def by (simp_all add: minus_mult_div_eq_mod)
  have n4: "0 \<le> n4" "365 * n4 \<le> d3" "n4 \<le> 4"
    using d3 unfolding n4_def by (simp_all add: pos_imp_zdiv_nonneg_iff)
  have w1: "(word_of_int A :: 64 word) div 146097 = word_of_int n1"
    unfolding n1_def using assms by (intro woi_div64_numeral) simp_all
  have w2: "(word_of_int A :: 64 word) - 146097 * word_of_int n1 = word_of_int d1"
    by (simp add: d1_def)
  have w3: "(word_of_int d1 :: 64 word) div 36524 = word_of_int n2"
    unfolding n2_def using d1 by (intro woi_div64_numeral) simp_all
  have w4: "(word_of_int n2 :: 64 word) - drop_bit 2 (word_of_int n2) = word_of_int b"
    using n2 by (simp add: woi_drop_bit2 b_def)
  have w5: "(word_of_int d1 :: 64 word) - 36524 * word_of_int b = word_of_int d2"
    by (simp add: d2_def)
  have w6: "(word_of_int d2 :: 64 word) div 1461 = word_of_int n3"
    unfolding n3_def using d2 d1 by (intro woi_div64_numeral) simp_all
  have w7: "(word_of_int d2 :: 64 word) - 1461 * word_of_int n3 = word_of_int d3"
    by (simp add: d3_def)
  have w8: "(word_of_int d3 :: 64 word) div 365 = word_of_int n4"
    unfolding n4_def using d3 by (intro woi_div64_numeral) simp_all
  have w9: "(word_of_int n4 :: 64 word) - drop_bit 2 (word_of_int n4) = word_of_int e"
    using n4 by (simp add: woi_drop_bit2 e_def)
  have c: "cyc A = (400 * n1 + 100 * b + 4 * n3 + e, d3 - 365 * e)"
    by (rule cyc_eqI [OF n1_def d1_def n2_def b_def d2_def n3_def d3_def n4_def e_def])
  have w10: "(word_of_int d3 :: 64 word) - 365 * word_of_int e = word_of_int (d3 - 365 * e)"
    by simp
  have w11: "400 * (word_of_int n1 :: 64 word) + 100 * word_of_int b + 4 * word_of_int n3
      + word_of_int e = word_of_int (400 * n1 + 100 * b + 4 * n3 + e)"
    by simp
  have "absDate (word_of_int A) full =
     (let year = word_of_int (400 * n1 + 100 * b + 4 * n3 + e) + absoluteZeroYear;
          yday = word_of_int (d3 - 365 * e)
      in if \<not> full then Some (year, 0, 0, yday)
         else let day = yday in
           if isLeap year \<and> \<not> 31 + 29 - 1 <s day \<and> day = 31 + 29 - 1
           then Some (year, 2, 29, yday)
           else
             let day = (if isLeap year \<and> 31 + 29 - 1 <s day then day - 1 else day);
                 month = quo day 31
             in do {
               end_m \<leftarrow> index daysBefore (month + 1);
               (if end_m \<le>s day
                then Some (year, month + 1 + 1, day - end_m + 1, yday)
                else do {
                  begin_m \<leftarrow> index daysBefore month;
                  Some (year, month + 1, day - begin_m + 1, yday)
                })
             })"
    unfolding absDate_def Let_def daysPer400Years_def daysPer100Years_def daysPer4Years_def
      w1 w2 w3 w4 w5 w6 w7 w8 w9 w10 w11
    by (rule refl)
  also have "\<dots> =
     (let year = word_of_int (400 * n1 + 100 * b + 4 * n3 + e) + absoluteZeroYear;
          yday = word_of_int (d3 - 365 * e)
      in if \<not> full then Some (year, 0, 0, yday)
         else map_option (\<lambda>(m, d). (year, m, d, yday)) (monthDay (isLeap year) yday))"
    unfolding monthDay_def Let_def
    by (auto split: Option.bind_splits)
  finally show ?thesis
    unfolding c fst_conv snd_conv .
qed

lemma daysSinceEpoch_dse:
  assumes "0 \<le> Y" "Y < 2 ^ 63"
  shows "daysSinceEpoch (word_of_int Y + absoluteZeroYear) = word_of_int (dse Y)"
proof -
  have m: "0 \<le> Y mod 400" "Y mod 400 < 2 ^ 63" "0 \<le> Y mod 100" "Y mod 100 < 2 ^ 63"
    by (simp_all add: order_less_trans [OF pos_mod_bound])
  have w0: "word_of_int Y + absoluteZeroYear - absoluteZeroYear = (word_of_int Y :: 64 word)"
    by simp
  have w1: "quo (word_of_int Y) 400 = word_of_int (Y div 400)"
    using assms by (intro quo_woi64_numeral) simp_all
  have "Y - 400 * (Y div 400) = Y mod 400"
    by (simp add: minus_mult_div_eq_mod)
  then have w2: "(word_of_int Y :: 64 word) - 400 * word_of_int (Y div 400) = word_of_int (Y mod 400)"
    by (simp only: woi_sub_mult)
  have w3: "quo (word_of_int (Y mod 400)) 100 = word_of_int (Y mod 400 div 100)"
    using m by (intro quo_woi64_numeral) simp_all
  have "Y mod 400 - 100 * (Y mod 400 div 100) = Y mod 400 mod 100"
    by (simp add: minus_mult_div_eq_mod)
  also have "\<dots> = Y mod 100"
    by (simp add: mod_mod_cancel)
  finally have w4: "(word_of_int (Y mod 400) :: 64 word) - 100 * word_of_int (Y mod 400 div 100)
      = word_of_int (Y mod 100)"
    by (simp only: woi_sub_mult)
  have w5: "quo (word_of_int (Y mod 100)) 4 = word_of_int (Y mod 100 div 4)"
    using m by (intro quo_woi64_numeral) simp_all
  have "Y mod 100 - 4 * (Y mod 100 div 4) = Y mod 100 mod 4"
    by (simp add: minus_mult_div_eq_mod)
  also have "\<dots> = Y mod 4"
    by (simp add: mod_mod_cancel)
  finally have w6: "(word_of_int (Y mod 100) :: 64 word) - 4 * word_of_int (Y mod 100 div 4)
      = word_of_int (Y mod 4)"
    by (simp only: woi_sub_mult)
  show ?thesis
    unfolding daysSinceEpoch_def Let_def daysPer400Years_def daysPer100Years_def
      daysPer4Years_def w0 w1 w2 w3 w4 w5 w6
    by (simp add: dse_def)
qed

lemma dvd_shift: "k dvd x + k * q \<longleftrightarrow> k dvd x" for k x q :: int
  using dvd_add_times_triv_right_iff [of k x q] by (simp only: mult.commute)

lemma isLeap_leapY:
  assumes "0 \<le> Y" "Y < 2 ^ 62"
  shows "isLeap (word_of_int Y + absoluteZeroYear) \<longleftrightarrow> leapY Y"
proof -
  have "sint (word_of_int Y + absoluteZeroYear) = sint (word_of_int (Y - 292277022399) :: 64 word)"
    by (simp add: absoluteZeroYear_def)
  also have "\<dots> = Y - 292277022399"
    using assms by (intro sint_woi64) simp_all
  finally have s: "sint (word_of_int Y + absoluteZeroYear) = Y - 292277022399" .
  have e4: "Y - 292277022399 = (Y + 1) + 4 * (- 73069255600)"
    and e100: "Y - 292277022399 = (Y + 1) + 100 * (- 2922770224)"
    and e400: "Y - 292277022399 = (Y + 1) + 400 * (- 730692556)"
    by simp_all
  have "4 dvd Y - 292277022399 \<longleftrightarrow> 4 dvd Y + 1"
    by (subst e4) (rule dvd_shift)
  moreover have "100 dvd Y - 292277022399 \<longleftrightarrow> 100 dvd Y + 1"
    by (subst e100) (rule dvd_shift)
  moreover have "400 dvd Y - 292277022399 \<longleftrightarrow> 400 dvd Y + 1"
    by (subst e400) (rule dvd_shift)
  ultimately show ?thesis
    unfolding isLeap_iff s leapY_def by (simp only:)
qed

lemma norm_id:
  assumes "0 \<le>s lo" "lo <s 12"
  shows "norm hi lo 12 = Some (hi, lo)"
  using assms by (simp add: norm_def word_sless_alt word_sle_eq)


section \<open>Month and day, by enumeration\<close>

lemmas md_eval =
  upto.simps md_fwd_def md_bwd_def monthDay_def daysIn_leap_def calendar_defs Let_def
  signed_divide_int_def

lemma md_fwd_leap: "list_all (md_fwd True) [0..365]"
  by (simp add: md_eval)

lemma md_fwd_common: "list_all (md_fwd False) [0..364]"
  by (simp add: md_eval)

lemma md_bwd_leap: "list_all (md_bwd True) [1..12]"
  by (simp add: md_eval)

lemma md_bwd_common: "list_all (md_bwd False) [1..12]"
  by (simp add: md_eval)

lemma md_fwd_all:
  assumes "0 \<le> k" "k < (if leap then 366 else 365)"
  shows "md_fwd leap k"
proof (cases leap)
  case True
  with assms have "k \<in> set [0..365]" by simp
  with md_fwd_leap True show ?thesis by (simp add: list_all_iff del: set_upto)
next
  case False
  with assms have "k \<in> set [0..364]" by simp
  with md_fwd_common False show ?thesis by (simp add: list_all_iff del: set_upto)
qed

lemma md_bwd_all:
  assumes "1 \<le> m" "m \<le> 12"
  shows "md_bwd leap m"
proof (cases leap)
  case True
  from assms have "m \<in> set [1..12]" by simp
  with md_bwd_leap True show ?thesis by (simp add: list_all_iff del: set_upto)
next
  case False
  from assms have "m \<in> set [1..12]" by simp
  with md_bwd_common False show ?thesis by (simp add: list_all_iff del: set_upto)
qed

section \<open>A date, its triple, and back\<close>

lemma dse_ge:
  assumes "0 \<le> Y"
  shows "365 * Y \<le> dse Y"
proof -
  obtain a b c e where Y: "Y = 400 * a + 100 * b + 4 * c + e"
    and d: "0 \<le> b" "b \<le> 3" "0 \<le> c" "c \<le> 24" "0 \<le> e" "e \<le> 3" and a: "a = Y div 400"
    by (rule digits_of_year)
  have "0 \<le> a" using assms a by (simp add: pos_imp_zdiv_nonneg_iff)
  then have "365 * Y \<le> 146097 * a + 36524 * b + 1461 * c + 365 * e"
    using d unfolding Y by simp
  moreover have "dse Y = 146097 * a + 36524 * b + 1461 * c + 365 * e"
    unfolding Y by (rule year_digits [OF d])
  ultimately show ?thesis by simp
qed

lemma dse_mono:
  assumes "Y \<le> Y'"
  shows "dse Y \<le> dse Y'"
  using assms
proof (induction Y' rule: int_ge_induct)
  case base
  show ?case by simp
next
  case (step i)
  then show ?case using dse_Suc [of i] yearlen_pos [of i] by linarith
qed

lemma Of_in_range:
  assumes m: "1 \<le>s month" "month \<le>s 12"
    and db: "index daysBefore (month - 1) = Some db"
  shows "Of year month day =
           Some (daysSinceEpoch year + db + (if isLeap year \<and> 3 \<le>s month then 1 else 0)
                   + (day - 1) - internalToAbsolute)"
proof -
  have s: "1 \<le> sint month" "sint month \<le> 12"
    using m by (simp_all add: word_sle_eq)
  have "sint (month - 1) = sint month - 1"
    using s by (simp add: sint_word_diff signed_take_bit_int_eq_self)
  then have "0 \<le>s month - 1" "month - 1 <s 12"
    using s by (simp_all add: word_sle_eq word_sless_alt)
  then have n: "norm year (month - 1) 12 = Some (year, month - 1)"
    by (rule norm_id)
  show ?thesis
    by (simp add: Of_def n db Let_def)
qed

lemma Date_Of_roundtrip:
  "\<exists>y m dd n. Date_Date d = Some (y, m, dd) \<and> 1 \<le>s m \<and> m \<le>s 12 \<and> 1 \<le>s dd \<and>
      daysIn m y = Some n \<and> dd \<le>s n \<and> Of y m dd = Some d"
proof -
  define A where "A = uint (Date_abs d)"
  have A: "0 \<le> A" "A < 2 ^ 64" and wA: "Date_abs d = word_of_int A"
    using uint_bounded [of "Date_abs d"] by (simp_all add: A_def)
  define Y where "Y = fst (cyc A)"
  define r where "r = snd (cyc A)"
  have c: "dse Y + r = A" "0 \<le> Y" "0 \<le> r" "r < yearlen Y"
    using cyc_sound [OF A(1)] by (simp_all add: Y_def r_def)
  have "365 * Y \<le> A"
    using dse_ge [OF c(2)] c by linarith
  then have Y: "Y < 2 ^ 62" using A by simp
  define year :: "64 word" where "year = word_of_int Y + absoluteZeroYear"
  define leap where "leap = isLeap year"
  have leap: "leap \<longleftrightarrow> leapY Y"
    unfolding leap_def year_def using c(2) Y by (rule isLeap_leapY)
  have "r < (if leap then 366 else 365)"
    using c(4) by (simp add: yearlen_def leap)
  with c(3) have "md_fwd leap r" by (rule md_fwd_all)
  then obtain m dd n db where md: "monthDay leap (word_of_int r) = Some (m, dd)"
    and rng: "1 \<le>s m" "m \<le>s 12" "1 \<le>s dd" "daysIn_leap leap m = Some n" "dd \<le>s n"
    and db: "index daysBefore (m - 1) = Some db"
      "db + (if leap \<and> 3 \<le>s m then 1 else 0) + (dd - 1) = word_of_int r"
    by (auto simp: md_fwd_def split: option.splits)
  have "absDate (Date_abs d) True = Some (year, m, dd, word_of_int r)"
    unfolding wA absDate_cyc [OF A]
    by (simp add: Y_def [symmetric] r_def [symmetric] year_def [symmetric] leap_def [symmetric] md)
  then have 1: "Date_Date d = Some (year, m, dd)"
    by (simp add: Date_Date_def)
  have 2: "daysIn m year = Some n"
    by (simp add: daysIn_leap leap_def [symmetric] rng)
  have "2 ^ 62 < (2 ^ 63 :: int)" by simp
  with Y have "Y < 2 ^ 63" by linarith
  with c(2) have dse: "daysSinceEpoch year = word_of_int (dse Y)"
    unfolding year_def by (rule daysSinceEpoch_dse)
  have "Of year m dd =
          Some (word_of_int (dse Y) + (db + (if leap \<and> 3 \<le>s m then 1 else 0) + (dd - 1))
                  - internalToAbsolute)"
    by (simp add: Of_in_range [OF rng(1,2) db(1)] dse leap_def add.assoc)
  also have "\<dots> = Some (word_of_int A - internalToAbsolute)"
    unfolding db(2) by (simp add: c(1) [symmetric])
  also have "\<dots> = Some d"
    by (simp add: wA [symmetric] Date_abs_def)
  finally have 3: "Of year m dd = Some d" .
  from 1 2 3 rng show ?thesis by blast
qed


lemma dse_limit: "dse 50505469855533109 = 18446744073709551563"
  by (simp add: dse_def)

lemma Of_Date_roundtrip:
  assumes y: "absoluteZeroYear \<le>s year" "year \<le>s 50505177578510709"
    and m: "1 \<le>s month" "month \<le>s 12"
    and d: "1 \<le>s day" "daysIn month year = Some n" "day \<le>s n"
  shows "\<exists>d. Of year month day = Some d \<and> Date_Date d = Some (year, month, day)"
proof -
  define Y where "Y = sint year + 292277022399"
  have Y: "0 \<le> Y" "Y \<le> 50505469855533108"
    using y by (simp_all add: Y_def word_sle_eq absoluteZeroYear_def)
  have year: "year = word_of_int Y + absoluteZeroYear"
    by (simp add: Y_def absoluteZeroYear_def)
  define leap where "leap = isLeap year"
  have Y62: "Y < 2 ^ 62" and Y63: "Y < 2 ^ 63" using Y by simp_all
  have leap: "leap \<longleftrightarrow> leapY Y"
    unfolding leap_def year using Y(1) Y62 by (rule isLeap_leapY)
  define mi where "mi = sint month"
  have mi: "1 \<le> mi" "mi \<le> 12" and month: "month = word_of_int mi"
    using m by (simp_all add: mi_def word_sle_eq)
  have "md_bwd leap mi" using mi by (rule md_bwd_all)
  moreover have "daysIn_leap leap (word_of_int mi) = Some n"
    using d(2) by (simp add: daysIn_leap leap_def month)
  ultimately obtain db where n: "n \<le>s 31"
    and db': "index daysBefore (word_of_int mi - 1) = Some db"
    and all': "list_all
                 (\<lambda>d. if word_of_int d \<le>s n
                      then
                        let k = db + (if leap \<and> 3 \<le>s (word_of_int mi :: 64 word) then 1 else 0)
                                  + (word_of_int d - 1)
                        in 0 \<le>s k \<and> k <s (if leap then 366 else 365) \<and>
                           monthDay leap k = Some (word_of_int mi, word_of_int d)
                      else True)
                 [1..31]"
    by (auto simp: md_bwd_def split: option.splits)
  note db = db' [folded month] and all = all' [folded month]
  define di where "di = sint day"
  have di: "1 \<le> di" "di \<le> 31" and day: "day = word_of_int di"
    using d(1,3) n by (simp_all add: di_def word_sle_eq)
  then have "di \<in> set [1..31]" by simp
  with all have "if word_of_int di \<le>s n
      then
        let k = db + (if leap \<and> 3 \<le>s month then 1 else 0) + (word_of_int di - 1)
        in 0 \<le>s k \<and> k <s (if leap then 366 else 365) \<and>
           monthDay leap k = Some (month, word_of_int di)
      else True"
    unfolding list_all_iff by blast
  moreover define k where "k = db + (if leap \<and> 3 \<le>s month then 1 else 0) + (day - 1)"
  ultimately have k: "0 \<le>s k" "k <s (if leap then 366 else 365)"
    and md: "monthDay leap k = Some (month, day)"
    using d(3) by (simp_all add: day [symmetric] Let_def)
  define r where "r = sint k"
  have r: "0 \<le> r" "r < yearlen Y" and kr: "k = word_of_int r"
    using k by (auto simp: r_def word_sle_eq word_sless_alt yearlen_def leap split: if_splits)
  define A where "A = dse Y + r"
  have "365 * Y \<le> dse Y" using Y(1) by (rule dse_ge)
  then have A0: "0 \<le> A" using Y(1) r(1) by (simp add: A_def)
  have "A < dse (Y + 1)"
    using r(2) by (simp add: A_def dse_Suc)
  also have "dse (Y + 1) \<le> dse 50505469855533109"
    using Y(2) by (intro dse_mono) simp
  finally have A64: "A < 2 ^ 64"
    by (simp add: dse_limit)
  have dse: "daysSinceEpoch year = word_of_int (dse Y)"
    unfolding year using Y(1) Y63 by (rule daysSinceEpoch_dse)
  have "Of year month day = Some (word_of_int (dse Y) + k - internalToAbsolute)"
    by (simp add: Of_in_range [OF m db] dse leap_def k_def add.assoc)
  also have "word_of_int (dse Y) + k = (word_of_int A :: 64 word)"
    by (simp add: kr A_def)
  finally have 1: "Of year month day = Some (word_of_int A - internalToAbsolute)" .
  have c: "cyc A = (Y, r)"
    unfolding A_def using r by (rule cyc_inverse)
  have "absDate (word_of_int A) True = Some (year, month, day, k)"
    unfolding absDate_cyc [OF A0 A64] c
    by (simp add: year [symmetric] leap_def [symmetric] kr [symmetric] md)
  then have 2: "Date_Date (word_of_int A - internalToAbsolute) = Some (year, month, day)"
    by (simp add: Date_Date_def Date_abs_def)
  from 1 2 show ?thesis by blast
qed


text \<open>
  Claim C1 (amended). For every \<^verbatim>\<open>Date\<close> \<open>d\<close> (every 64-bit day count), \<^verbatim>\<open>d.Date()\<close> returns a
  valid triple (month in [1, 12], day in [1, \<^verbatim>\<open>daysIn(month, year)\<close>]) and \<^verbatim>\<open>Of\<close> maps that triple
  back to \<open>d\<close>: the day counts are mapped one-to-one into the valid triples. And for every
  year from \<^verbatim>\<open>absoluteZeroYear\<close> (-292277022399) to 50505177578510709, every month in [1, 12]
  and every day in [1, \<^verbatim>\<open>daysIn(month, year)\<close>], \<^verbatim>\<open>Of(year, month, day).Date()\<close> returns
  \<open>(year, month, day)\<close>. Neither call panics.
\<close>

theorem C1_roundtrip:
  "(\<exists>y m dd k. Date_Date d = Some (y, m, dd) \<and> 1 \<le>s m \<and> m \<le>s 12 \<and> 1 \<le>s dd \<and>
      daysIn m y = Some k \<and> dd \<le>s k \<and> Of y m dd = Some d) \<and>
   (absoluteZeroYear \<le>s year \<and> year \<le>s 50505177578510709 \<and>
    1 \<le>s month \<and> month \<le>s 12 \<and> 1 \<le>s day \<and> daysIn month year = Some n \<and> day \<le>s n \<longrightarrow>
      (\<exists>d'. Of year month day = Some d' \<and> Date_Date d' = Some (year, month, day)))"
  using Date_Of_roundtrip [of d] Of_Date_roundtrip [of year month day n] by blast

lemma daysIn_2_2024: "daysIn 2 2024 = Some 29"
  by (simp add: daysIn_def calendar_defs)

theorem C1_roundtrip_witness:
  "daysIn 2 2024 = Some 29 \<and>
   (\<exists>d'. Of 2024 2 29 = Some d' \<and> Date_Date d' = Some (2024, 2, 29)) \<and>
   (\<exists>y m dd k. Date_Date 738944 = Some (y, m, dd) \<and> daysIn m y = Some k \<and> dd \<le>s k \<and>
      Of y m dd = Some 738944)"
proof -
  have "absoluteZeroYear \<le>s 2024 \<and> (2024 :: 64 word) \<le>s 50505177578510709 \<and>
      (1 :: 64 word) \<le>s 2 \<and> (2 :: 64 word) \<le>s 12 \<and> (1 :: 64 word) \<le>s 29 \<and>
      daysIn 2 2024 = Some 29 \<and> (29 :: 64 word) \<le>s 29"
    by (simp add: daysIn_2_2024 absoluteZeroYear_def word_sle_eq)
  with C1_roundtrip [of 738944 2024 2 29 29] daysIn_2_2024 show ?thesis by blast
qed

text \<open>The claim as stated, for every year, fails for the year before \<^verbatim>\<open>absoluteZeroYear\<close>:
  January 1 of the year -292277022400 is a valid triple, and \<^verbatim>\<open>Of\<close> followed by \<^verbatim>\<open>Date\<close>
  returns February 23 of the year 50505177578510709.\<close>

lemma daysIn_before_zero: "daysIn 1 (- 292277022400) = Some 31"
  by code_simp

lemma Of_before_zero: "Of (- 292277022400) 1 1 = Some (- 106751990354297)"
  by code_simp

lemma Date_Date_before_zero:
  "Date_Date (- 106751990354297) = Some (50505177578510709, 2, 23)"
  by code_simp

theorem C1_year_counterexample:
  "daysIn 1 (- 292277022400) = Some 31 \<and>
   Of (- 292277022400) 1 1 = Some (- 106751990354297) \<and>
   Date_Date (- 106751990354297) = Some (50505177578510709, 2, 23) \<and>
   Date_Date (- 106751990354297) \<noteq> Some (- 292277022400, 1, 1)"
  by (simp add: daysIn_before_zero Of_before_zero Date_Date_before_zero)

section \<open>Normalisation by Of\<close>

lemma neg_div12: "L < 0 \<Longrightarrow> (- L - 1) div 12 + 1 = - (L div (12 :: int))"
  by presburger

lemma norm_12: "norm hi lo 12 = Some (hi + word_of_int (sint lo div 12), word_of_int (sint lo mod 12))"
proof -
  define L where "L = sint lo"
  have lo: "lo = word_of_int L"
    by (simp add: L_def)
  have L: "- (2 ^ 63) \<le> L" "L < 2 ^ 63"
    using sint_range_size [of lo] by (simp_all add: L_def word_size)
  have r: "0 \<le> L mod 12" "L mod 12 < 12"
    by simp_all
  have nb: "\<not> (12 :: 64 word) \<le>s word_of_int (L mod 12)"
    using r sless_woi64(2) [of 12 "L mod 12"] by simp
  have b0: "(12 :: 64 word) \<noteq> 0"
    by simp
  consider (neg) "L < 0" | (mid) "0 \<le> L" "L < 12" | (big) "12 \<le> L"
    by linarith
  then have "norm hi lo 12 = Some (hi + word_of_int (L div 12), word_of_int (L mod 12))"
  proof cases
    case neg
    have c: "lo <s 0"
      using neg by (simp add: word_sless_alt L_def)
    have "- lo - 1 = word_of_int (- L - 1)"
      by (simp add: lo)
    then have "quo (- lo - 1) 12 = word_of_int ((- L - 1) div 12)"
      using neg L quo_woi64_numeral [of "- L - 1" "num.Bit0 (num.Bit0 (num.Bit1 num.One))"]
      by simp
    moreover have "(word_of_int ((- L - 1) div 12 + 1) :: 64 word) = word_of_int (- (L div 12))"
      by (simp only: neg_div12 [OF neg])
    ultimately have n: "quo (- lo - 1) 12 + 1 = - word_of_int (L div 12)"
      by simp
    have "L - (L div 12) * 12 = L mod 12"
      by (simp add: minus_mult_div_eq_mod algebra_simps)
    then have l: "lo - word_of_int (L div 12) * 12 = word_of_int (L mod 12)"
      unfolding lo by (metis of_int_diff of_int_mult of_int_numeral)
    show ?thesis
      unfolding norm_def using c nb
      by (simp add: Let_def n l)
  next
    case mid
    then have "0 \<le>s lo" "lo <s 12"
      by (simp_all add: word_sle_eq word_sless_alt L_def)
    then have "norm hi lo 12 = Some (hi, lo)"
      by (rule norm_id)
    moreover have "L div 12 = 0" "L mod 12 = L"
      using mid by simp_all
    ultimately show ?thesis
      by (simp add: lo)
  next
    case big
    have c: "\<not> lo <s 0" "12 \<le>s lo"
      using big by (simp_all add: word_sless_alt word_sle_eq L_def)
    have n: "quo lo 12 = word_of_int (L div 12)"
      unfolding lo using big L quo_woi64_numeral [of L "num.Bit0 (num.Bit0 (num.Bit1 num.One))"]
      by simp
    have "L - (L div 12) * 12 = L mod 12"
      by (simp add: minus_mult_div_eq_mod algebra_simps)
    then have l: "lo - word_of_int (L div 12) * 12 = word_of_int (L mod 12)"
      unfolding lo by (metis of_int_diff of_int_mult of_int_numeral)
    show ?thesis
      unfolding norm_def using c
      by (simp add: Let_def n l)
  qed
  then show ?thesis
    by (simp only: L_def)
qed


lemma Of_month_carry:
  "Of year month day =
     Of (year + word_of_int (sint (month - 1) div 12))
        (word_of_int (sint (month - 1) mod 12) + 1) day"
proof -
  define r where "r = sint (month - 1) mod 12"
  define Y where "Y = year + word_of_int (sint (month - 1) div 12)"
  have r: "0 \<le> r" "r < 12"
    by (simp_all add: r_def)
  have rd: "sint (word_of_int r :: 64 word) = r" "r div 12 = 0" "r mod 12 = r"
    using r by (simp_all add: sint_woi64)
  show ?thesis
    unfolding Of_def Let_def norm_12 r_def [symmetric] Y_def [symmetric]
    by (simp add: rd)
qed

lemma month_table:
  assumes "1 \<le>s m" "m \<le>s 12"
  shows "\<exists>a b. index daysBefore (m - 1) = Some a \<and> index daysBefore m = Some b \<and>
           (m = 2 \<longrightarrow> a = 31 \<and> b = 59) \<and> (m = 12 \<longrightarrow> a = 334 \<and> b = 365)"
proof -
  have s: "1 \<le> sint m" "sint m \<le> 12"
    using assms by (simp_all add: word_sle_eq)
  have s1: "sint (m - 1) = sint m - 1"
    using s by (simp add: sint_word_diff signed_take_bit_int_eq_self)
  have i: "index daysBefore (m - 1) = Some (daysBefore ! nat (sint m - 1))"
    "index daysBefore m = Some (daysBefore ! nat (sint m))"
    using s by (simp_all add: index_def s1 word_sle_eq daysBefore_def)
  have "m = 2 \<Longrightarrow> daysBefore ! nat (sint m - 1) = 31 \<and> daysBefore ! nat (sint m) = 59"
    by (simp add: daysBefore_def)
  moreover have "m = 12 \<Longrightarrow> daysBefore ! nat (sint m - 1) = 334 \<and> daysBefore ! nat (sint m) = 365"
    by (simp add: daysBefore_def)
  ultimately show ?thesis
    using i by blast
qed

lemma daysSinceEpoch_next:
  assumes "absoluteZeroYear \<le>s year" "year \<le>s 50505177578510709"
  shows "daysSinceEpoch (year + 1) = daysSinceEpoch year + (if isLeap year then 366 else 365)"
proof -
  define Y where "Y = sint year + 292277022399"
  have Y: "0 \<le> Y" "Y \<le> 50505469855533108"
    using assms by (simp_all add: Y_def word_sle_eq absoluteZeroYear_def)
  have year: "year = word_of_int Y + absoluteZeroYear"
    by (simp add: Y_def absoluteZeroYear_def)
  have year1: "year + 1 = word_of_int (Y + 1) + absoluteZeroYear"
    by (simp add: year)
  have "daysSinceEpoch (year + 1) = word_of_int (dse (Y + 1))"
    unfolding year1 using Y by (intro daysSinceEpoch_dse) simp_all
  moreover have "daysSinceEpoch year = word_of_int (dse Y)"
    unfolding year using Y by (intro daysSinceEpoch_dse) simp_all
  moreover have "isLeap year \<longleftrightarrow> leapY Y"
    unfolding year using Y by (intro isLeap_leapY) simp_all
  ultimately show ?thesis
    by (simp add: dse_Suc yearlen_def)
qed

lemma Of_day_carry:
  assumes y: "absoluteZeroYear \<le>s year" "year \<le>s 50505177578510709"
    and m: "1 \<le>s m" "m \<le>s 12"
    and n: "daysIn m year = Some n"
  shows "Of year m (n + day) = Of year (m + 1) day"
proof -
  obtain a b where ab: "index daysBefore (m - 1) = Some a" "index daysBefore m = Some b"
      "m = 2 \<Longrightarrow> a = 31 \<and> b = 59" "m = 12 \<Longrightarrow> a = 334 \<and> b = 365"
    using month_table [OF m] by blast
  have s: "1 \<le> sint m" "sint m \<le> 12"
    using m by (simp_all add: word_sle_eq)
  have mw: "m = word_of_int (sint m)"
    by simp
  have n': "n = (if m = 2 \<and> isLeap year then 29 else b - a)"
    using n unfolding daysIn_def ab by (auto split: if_splits)
  have L: "Of year m (n + day) =
      Some (daysSinceEpoch year + a + (if isLeap year \<and> 3 \<le>s m then 1 else 0)
              + (n + day - 1) - internalToAbsolute)"
    using m ab(1) by (rule Of_in_range)
  show ?thesis
  proof (cases "m = 12")
    case False
    have "m = 12" if "sint m = 12"
      using mw unfolding that by simp
    with False have "sint m \<noteq> 12"
      by blast
    with s have s': "sint m \<le> 11"
      by linarith
    have s1: "sint (m + 1) = sint m + 1"
      using s by (simp add: sint_word_ariths signed_take_bit_int_eq_self)
    have m1: "1 \<le>s m + 1" "m + 1 \<le>s 12"
      using s s' by (simp_all add: word_sle_eq s1)
    have i: "index daysBefore (m + 1 - 1) = Some b"
      by (simp add: ab)
    have R: "Of year (m + 1) day =
        Some (daysSinceEpoch year + b + (if isLeap year \<and> 3 \<le>s m + 1 then 1 else 0)
                + (day - 1) - internalToAbsolute)"
      using m1 i by (rule Of_in_range)
    have c: "3 \<le>s m + 1 \<longleftrightarrow> 2 \<le> sint m" "3 \<le>s m \<longleftrightarrow> 3 \<le> sint m"
      by (simp_all add: word_sle_eq s1)
    have "m = 2" if "sint m = 2"
      using mw unfolding that by simp
    then have m2: "m = 2 \<longleftrightarrow> sint m = 2"
      by auto
    have "daysSinceEpoch year + a + (if isLeap year \<and> 3 \<le>s m then 1 else 0)
              + (n + day - 1) - internalToAbsolute =
          daysSinceEpoch year + b + (if isLeap year \<and> 3 \<le>s m + 1 then 1 else 0)
                + (day - 1) - internalToAbsolute"
      unfolding n' c using ab(3) s by (auto simp: m2)
    then show ?thesis
      unfolding L R by (simp only:)
  next
    case True
    have ab': "a = 334" "b = 365"
      using ab(4) True by simp_all
    have "Of year (12 + 1) day = Of (year + 1) 1 day"
      by (subst Of_month_carry) simp
    also have "\<dots> = Some (daysSinceEpoch (year + 1) + 0 + (if isLeap (year + 1) \<and> 3 \<le>s (1 :: 64 word) then 1 else 0)
                + (day - 1) - internalToAbsolute)"
      by (rule Of_in_range) (simp_all add: word_sle_eq index_def daysBefore_def)
    finally have R: "Of year (12 + 1) day =
        Some (daysSinceEpoch year + (if isLeap year then 366 else 365) + (day - 1) - internalToAbsolute)"
      by (simp add: daysSinceEpoch_next [OF y] word_sle_eq)
    have "daysSinceEpoch year + a + (if isLeap year \<and> 3 \<le>s m then 1 else 0)
              + (n + day - 1) - internalToAbsolute =
          daysSinceEpoch year + (if isLeap year then 366 else 365) + (day - 1) - internalToAbsolute"
      unfolding n' ab' True by (simp add: word_sle_eq)
    then show ?thesis
      unfolding L unfolding True R by (simp only:)
  qed
qed

lemma Of_day_linear: "Of year month (day + k) = map_option (\<lambda>d. d + k) (Of year month day)"
  by (simp add: Of_def Let_def split: Option.bind_split)

lemma Of_total: "\<exists>d. Of year month day = Some d"
proof -
  define r where "r = sint (month - 1) mod 12"
  have r: "0 \<le> r" "r < 12"
    by (simp_all add: r_def)
  have s: "sint (word_of_int r :: 64 word) = r"
    using r by (intro sint_woi64) simp_all
  have "index daysBefore (word_of_int r :: 64 word) \<noteq> None"
    using r by (simp add: index_def s word_sle_eq daysBefore_def)
  then show ?thesis
    unfolding Of_def Let_def norm_12 r_def [symmetric] by (auto simp: Let_def)
qed


lemma norm_month_range:
  "1 \<le>s (word_of_int (sint (month - 1) mod 12) + 1 :: 64 word) \<and>
   (word_of_int (sint (month - 1) mod 12) + 1 :: 64 word) \<le>s 12"
proof -
  define r where "r = sint (month - 1) mod 12"
  have r: "0 \<le> r" "r < 12"
    by (simp_all add: r_def)
  have "(word_of_int r + 1 :: 64 word) = word_of_int (r + 1)"
    by simp
  moreover have "sint (word_of_int (r + 1) :: 64 word) = r + 1"
    using r by (intro sint_woi64) simp_all
  ultimately show ?thesis
    unfolding r_def [symmetric] using r by (simp add: word_sle_eq)
qed

lemma Of_2023_0_0: "Of 2023 0 0 = Some 738488"
  by code_simp

lemma Of_2022_11_30: "Of 2022 11 30 = Some 738488"
  by code_simp

lemma Of_2023_minus_11_1: "Of 2023 (- 11) 1 = Some 738155"
  by code_simp

lemma Of_2022_1_1: "Of 2022 1 1 = Some 738155"
  by code_simp

lemma Of_2023_12_40: "Of 2023 12 40 = Some 738893"
  by (simp add: calendar_defs)

lemma Of_2024_1_9: "Of 2024 1 9 = Some 738893"
  by (simp add: calendar_defs)

lemma Of_1_1_0: "Of 1 1 0 = Some (- 1)"
  by (simp add: calendar_defs)

lemma Of_0_12_31: "Of 0 12 31 = Some (- 1)"
  by (simp add: calendar_defs)

lemma Of_1957_96_104: "Of 1957 96 104 = Some 717408"
  by (simp add: calendar_defs)

lemma Of_1964_12_104: "Of 1964 12 104 = Some 717408"
  by (simp add: calendar_defs)

lemma daysIn_12_2023: "daysIn 12 2023 = Some 31"
  by code_simp

text \<open>
  Claim C7. \<^verbatim>\<open>Of\<close> carries months and days that are out of range into the adjacent
  months and years, in closed form, and never panics:

  \<^item> a month is carried into the years by a division with floor: with \<open>j\<close> the month
    minus 1 (as Go computes it), the result is that of the year plus \<open>j div 12\<close> and the
    month \<open>j mod 12 + 1\<close>, which is in [1, 12]; this covers months below 1 as well as
    months above 12;
  \<^item> the day count is linear in the day: \<open>k\<close> days more give the \<^verbatim>\<open>Date\<close> plus \<open>k\<close>;
  \<^item> for a year from \<^verbatim>\<open>absoluteZeroYear\<close> to 50505177578510709 and a month \<open>m\<close> in
    [1, 12] with \<open>n\<close> days, the day \<open>n + day\<close> of the month \<open>m\<close> is the day \<open>day\<close> of the month
    \<open>m + 1\<close> (for \<open>m = 12\<close>, of January of the next year), whatever \<open>day\<close> is, so days past
    the end of a month run into the next month and days before its first into the
    previous one; and a day in [1, \<open>n\<close>] gives the \<^verbatim>\<open>Date\<close> whose \<^verbatim>\<open>Date()\<close> is that year,
    month and day;
  \<^item> \<^verbatim>\<open>Of(2023, 12, 40) == Of(2024, 1, 9)\<close> (the day count 738893),
    \<^verbatim>\<open>Of(1, 1, 0) == Of(0, 12, 31)\<close> (the day count -1),
    \<^verbatim>\<open>Of(1957, 96, 104) == Of(1964, 12, 104)\<close> (the day count 717408),
    \<^verbatim>\<open>Of(2023, 0, 0) == Of(2022, 11, 30)\<close> and \<^verbatim>\<open>Of(2023, -11, 1) == Of(2022, 1, 1)\<close>.
\<close>

theorem C7_Of_normalizes:
  "(\<exists>d. Of year month day = Some d) \<and>
   Of year month day =
     Of (year + word_of_int (sint (month - 1) div 12))
        (word_of_int (sint (month - 1) mod 12) + 1) day \<and>
   1 \<le>s (word_of_int (sint (month - 1) mod 12) + 1 :: 64 word) \<and>
   (word_of_int (sint (month - 1) mod 12) + 1 :: 64 word) \<le>s 12 \<and>
   Of year month (day + k) = map_option (\<lambda>d. d + k) (Of year month day) \<and>
   (absoluteZeroYear \<le>s year \<and> year \<le>s 50505177578510709 \<and>
    1 \<le>s m \<and> m \<le>s 12 \<and> daysIn m year = Some n \<longrightarrow>
      Of year m (n + day) = Of year (m + 1) day \<and>
      (1 \<le>s day \<and> day \<le>s n \<longrightarrow>
         (\<exists>d. Of year m day = Some d \<and> Date_Date d = Some (year, m, day)))) \<and>
   Of 2023 12 40 = Some 738893 \<and> Of 2024 1 9 = Some 738893 \<and>
   Of 1 1 0 = Some (- 1) \<and> Of 0 12 31 = Some (- 1) \<and>
   Of 1957 96 104 = Some 717408 \<and> Of 1964 12 104 = Some 717408 \<and>
   Of 2023 0 0 = Some 738488 \<and> Of 2022 11 30 = Some 738488 \<and>
   Of 2023 (- 11) 1 = Some 738155 \<and> Of 2022 1 1 = Some 738155"
proof -
  have a: "\<exists>d. Of year month day = Some d"
    by (rule Of_total)
  have b: "Of year month day =
     Of (year + word_of_int (sint (month - 1) div 12))
        (word_of_int (sint (month - 1) mod 12) + 1) day"
    by (rule Of_month_carry)
  have c: "Of year month (day + k) = map_option (\<lambda>d. d + k) (Of year month day)"
    by (rule Of_day_linear)
  have d: "absoluteZeroYear \<le>s year \<and> year \<le>s 50505177578510709 \<and>
    1 \<le>s m \<and> m \<le>s 12 \<and> daysIn m year = Some n \<longrightarrow>
      Of year m (n + day) = Of year (m + 1) day \<and>
      (1 \<le>s day \<and> day \<le>s n \<longrightarrow>
         (\<exists>d. Of year m day = Some d \<and> Date_Date d = Some (year, m, day)))"
    using Of_day_carry [of year m n day] Of_Date_roundtrip [of year m day n] by blast
  have e: "Of 2023 12 40 = Some 738893 \<and> Of 2024 1 9 = Some 738893 \<and>
   Of 1 1 0 = Some (- 1) \<and> Of 0 12 31 = Some (- 1) \<and>
   Of 1957 96 104 = Some 717408 \<and> Of 1964 12 104 = Some 717408 \<and>
   Of 2023 0 0 = Some 738488 \<and> Of 2022 11 30 = Some 738488 \<and>
   Of 2023 (- 11) 1 = Some 738155 \<and> Of 2022 1 1 = Some 738155"
    by (simp only: Of_2023_12_40 Of_2024_1_9 Of_1_1_0 Of_0_12_31 Of_1957_96_104
        Of_1964_12_104 Of_2023_0_0 Of_2022_11_30 Of_2023_minus_11_1 Of_2022_1_1 simp_thms)
  from a b c d e norm_month_range [of month] show ?thesis
    by (intro conjI) (elim conjE; assumption)+
qed

theorem C7_Of_normalizes_witness:
  "absoluteZeroYear \<le>s 2023 \<and> (2023 :: 64 word) \<le>s 50505177578510709 \<and>
   (1 :: 64 word) \<le>s 12 \<and> (12 :: 64 word) \<le>s 12 \<and> daysIn 12 2023 = Some 31 \<and>
   (1 :: 64 word) \<le>s 9 \<and> (9 :: 64 word) \<le>s 31 \<and>
   Of 2023 12 (31 + 9) = Of 2023 (12 + 1) 9 \<and>
   Of 2023 (12 + 1) 9 = Of (2023 + 1) 1 9 \<and>
   Of 2023 12 (9 + 31) = map_option (\<lambda>d. d + 31) (Of 2023 12 9) \<and>
   (\<exists>d. Of 2023 12 9 = Some d \<and> Date_Date d = Some (2023, 12, 9))"
proof -
  have h: "absoluteZeroYear \<le>s 2023" "(2023 :: 64 word) \<le>s 50505177578510709"
    "(1 :: 64 word) \<le>s 12" "(12 :: 64 word) \<le>s 12"
    "(1 :: 64 word) \<le>s 9" "(9 :: 64 word) \<le>s 31"
    by (simp_all add: word_sle_eq absoluteZeroYear_def)
  have c: "(2023 :: 64 word) + word_of_int (sint (12 + 1 - 1 :: 64 word) div 12) = 2023 + 1"
    "(word_of_int (sint (12 + 1 - 1 :: 64 word) mod 12) + 1 :: 64 word) = 1"
    by simp_all
  from C7_Of_normalizes [of 2023 12 9 31 12 31] h daysIn_12_2023
  have a: "Of 2023 12 (31 + 9) = Of 2023 (12 + 1) 9"
    and b: "Of 2023 12 (9 + 31) = map_option (\<lambda>d. d + 31) (Of 2023 12 9)"
    and d: "\<exists>d. Of 2023 12 9 = Some d \<and> Date_Date d = Some (2023, 12, 9)"
    by blast+
  from C7_Of_normalizes [of 2023 "12 + 1" 9 0 1 0]
  have "Of 2023 (12 + 1) 9 = Of (2023 + 1) 1 9"
    unfolding c by blast
  with a b d h daysIn_12_2023 show ?thesis
    by blast
qed

section \<open>The layout compiler\<close>

lemma prog_text_append:
  "prog_text (xs @ ys) = do { a \<leftarrow> prog_text xs; b \<leftarrow> prog_text ys; Some (a @ b) }"
  by (induction xs) (auto split: Option.bind_splits)

lemma opRange_String: "p \<in> set opRange \<Longrightarrow> fmtOp_String p \<noteq> None \<and> p \<noteq> opLiteral"
  by (auto simp: opRange_def)

lemma nextOp_at_total: "\<forall>p\<in>set ps. fmtOp_String p \<noteq> None \<Longrightarrow> nextOp_at ps s \<noteq> None"
  by (induction ps) (auto simp: CutPrefix_def)

lemma nextOp_at_token:
  "nextOp_at ps s = Some (Some (p, suffix)) \<Longrightarrow>
     p \<in> set ps \<and> (\<exists>tok. fmtOp_String p = Some tok \<and> s = tok @ suffix)"
proof (induction ps)
  case Nil
  then show ?case by simp
next
  case (Cons q qs)
  show ?case
  proof (cases "fmtOp_String q")
    case None
    with Cons.prems show ?thesis by simp
  next
    case (Some tok)
    show ?thesis
    proof (cases "take (length tok) s = tok")
      case False
      with Cons Some show ?thesis by (simp add: CutPrefix_def)
    next
      case True
      then have "s = tok @ drop (length tok) s"
        by (metis append_take_drop_id)
      with Cons Some True show ?thesis
        by (auto simp: CutPrefix_def split: if_splits)
    qed
  qed
qed

lemma nextOp_from_total: "nextOp_from pre s \<noteq> None"
proof (induction s arbitrary: pre)
  case Nil
  show ?case by simp
next
  case (Cons c cs)
  have "nextOp_at opRange (c # cs) \<noteq> None"
    using nextOp_at_total opRange_String by blast
  with Cons show ?case by (auto split: option.splits)
qed

lemma nextOp_from_split:
  "nextOp_from pre s = Some (prefix, p, suffix) \<Longrightarrow>
     (p = opLiteral \<and> prefix = pre @ s \<and> suffix = []) \<or>
     (p \<noteq> opLiteral \<and> (\<exists>tok. fmtOp_String p = Some tok \<and> pre @ s = prefix @ tok @ suffix))"
proof (induction s arbitrary: pre)
  case Nil
  then show ?case by simp
next
  case (Cons c cs)
  show ?case
  proof (cases "nextOp_at opRange (c # cs)")
    case None
    with Cons.prems show ?thesis by simp
  next
    case (Some r)
    show ?thesis
    proof (cases r)
      case None
      with Some Cons.prems have "nextOp_from (pre @ [c]) cs = Some (prefix, p, suffix)"
        by simp
      from Cons.IH [OF this] show ?thesis by simp
    next
      case (Some ps)
      obtain q suf where ps: "ps = (q, suf)" by (cases ps)
      with Some \<open>nextOp_at opRange (c # cs) = Some r\<close> Cons.prems
      have eq: "prefix = pre" "p = q" "suffix = suf" by simp_all
      from nextOp_at_token [of opRange "c # cs" q suf] Some ps \<open>nextOp_at opRange (c # cs) = Some r\<close>
      have "q \<in> set opRange" and "\<exists>tok. fmtOp_String q = Some tok \<and> c # cs = tok @ suf"
        by simp_all
      with eq opRange_String [of q] show ?thesis by auto
    qed
  qed
qed

lemma parseLayout_loop_text:
  "\<exists>r. parseLayout_loop prog layout = Some (prog @ r) \<and> prog_text r = Some layout"
proof (induction prog layout rule: parseLayout_loop.induct)
  case (1 prog layout)
  show ?case
  proof (cases "layout = []")
    case True
    then show ?thesis by (simp add: parseLayout_loop.simps)
  next
    case False
    obtain prefix p suffix where nx: "nextOp layout = Some (prefix, p, suffix)"
      using nextOp_from_total [of "[]" layout] by (auto simp: nextOp_def)
    define prog1 where "prog1 = (if prefix \<noteq> [] then prog @ [\<lparr>op = opLiteral, lit = prefix\<rparr>] else prog)"
    define prog2 where "prog2 = (if p \<noteq> opLiteral then prog1 @ [\<lparr>op = p, lit = []\<rparr>] else prog1)"
    have step: "parseLayout_loop prog layout = parseLayout_loop prog2 suffix"
      using False nx by (subst parseLayout_loop.simps) (simp add: prog1_def prog2_def Let_def)
    from "1.IH" [OF False nx refl refl, of prog1 prog2]
    obtain r where r: "parseLayout_loop prog2 suffix = Some (prog2 @ r)" "prog_text r = Some suffix"
      by (auto simp: prog1_def prog2_def)
    define hd_insts where "hd_insts =
       (if prefix \<noteq> [] then [\<lparr>op = opLiteral, lit = prefix\<rparr>] else []) @
       (if p \<noteq> opLiteral then [\<lparr>op = p, lit = []\<rparr>] else [])"
    have prog2: "prog2 = prog @ hd_insts"
      by (simp add: prog1_def prog2_def hd_insts_def)
    from nextOp_from_split [of "[]" layout prefix p suffix] nx
    have "prog_text (hd_insts @ r) = Some layout"
      using r(2) by (auto simp: nextOp_def hd_insts_def inst_String_def)
    with step r(1) prog2 show ?thesis by auto
  qed
qed

lemma nextOp_from_no_op:
  "\<forall>i<length s. nextOp_at opRange (drop i s) = Some None \<Longrightarrow>
   nextOp_from pre s = Some (pre @ s, opLiteral, [])"
proof (induction s arbitrary: pre)
  case Nil
  show ?case by simp
next
  case (Cons c cs)
  from Cons.prems have 0: "nextOp_at opRange (c # cs) = Some None"
    by (metis drop0 length_greater_0_conv list.distinct(1))
  have "\<forall>i<length cs. nextOp_at opRange (drop i cs) = Some None"
  proof (intro allI impI)
    fix i assume "i < length cs"
    then have "Suc i < length (c # cs)" by simp
    with Cons.prems have "nextOp_at opRange (drop (Suc i) (c # cs)) = Some None" by blast
    then show "nextOp_at opRange (drop i cs) = Some None" by simp
  qed
  from Cons.IH [OF this, of "pre @ [c]"] 0 show ?case by simp
qed

text \<open>
  Claim C8 (amended). For every layout string \<^verbatim>\<open>parseLayout\<close> returns (no panic) a list of
  instructions whose surface texts, concatenated in order, are the layout string. A
  layout that is not empty and in which no operator is recognised at any position compiles
  to the single literal holding the whole layout. (The empty layout compiles to the empty
  list of instructions.)
\<close>

theorem C8_parseLayout_text:
  "(\<exists>prog. parseLayout layout = Some prog \<and> prog_text prog = Some layout) \<and>
   ((\<forall>i<length layout. nextOp_at opRange (drop i layout) = Some None) \<and> layout \<noteq> [] \<longrightarrow>
      parseLayout layout = Some [\<lparr>op = opLiteral, lit = layout\<rparr>])"
proof (intro conjI impI)
  show "\<exists>prog. parseLayout layout = Some prog \<and> prog_text prog = Some layout"
    using parseLayout_loop_text [of "[]" layout] by (simp add: parseLayout_def)
next
  assume a: "(\<forall>i<length layout. nextOp_at opRange (drop i layout) = Some None) \<and> layout \<noteq> []"
  then have "nextOp layout = Some (layout, opLiteral, [])"
    using nextOp_from_no_op [of layout "[]"] by (simp add: nextOp_def)
  with a show "parseLayout layout = Some [\<lparr>op = opLiteral, lit = layout\<rparr>]"
    by (simp add: parseLayout_def parseLayout_loop.simps [of _ layout] parseLayout_loop.simps [of _ "[]"])
qed

lemma all_less_Suc_shift: "(\<forall>i<Suc n. P i) \<longleftrightarrow> P 0 \<and> (\<forall>i<n. P (Suc i))"
  by (metis less_Suc_eq_0_disj)

theorem C8_parseLayout_text_witness:
  "(\<exists>prog. parseLayout ''at 5 PM'' = Some prog \<and> prog_text prog = Some ''at 5 PM'') \<and>
   parseLayout ''at 5 PM'' = Some [\<lparr>op = opLiteral, lit = ''at 5 PM''\<rparr>]"
proof -
  have "\<forall>i<length ''at 5 PM''. nextOp_at opRange (drop i ''at 5 PM'') = Some None"
    by (simp add: all_less_Suc_shift opRange_def CutPrefix_def)
  with C8_parseLayout_text [of "''at 5 PM''"] show ?thesis by blast
qed

text \<open>The claim as stated fails at the empty layout: no operator is recognised in it
  (\<^verbatim>\<open>nextOp\<close> returns \<open>opLiteral\<close>), and it compiles to no instruction at all rather than
  to a single literal.\<close>

theorem C8_empty_layout_counterexample:
  "nextOp [] = Some ([], opLiteral, []) \<and> parseLayout [] = Some []
   \<and> parseLayout [] \<noteq> Some [\<lparr>op = opLiteral, lit = []\<rparr>]"
  by (simp add: nextOp_def parseLayout_def parseLayout_loop.simps)

section \<open>Unmarshalling leaves the receiver alone on error\<close>

lemma UnmarshalBinary_empty: "UnmarshalBinary d [] = (Some ''encoded date truncated'', d)"
  by (simp add: UnmarshalBinary_def Varint_def Uvarint_def)

lemma Parse_RFC3339_short_day:
  "Parse RFC3339 ''2024-01-9'' =
     Some (Inl \<lparr>Layout = ''2006-01-02'', Value = ''2024-01-9'', LayoutElem = ''02'',
                ValueElem = ''9'', Message = Text []\<rparr>)"
  by code_simp

text \<open>
  Claim C10. When \<^verbatim>\<open>UnmarshalBinary\<close> or \<^verbatim>\<open>UnmarshalText\<close> returns an error that is not
  \<^verbatim>\<open>nil\<close>, the receiver has the value it had before the call.
\<close>

theorem C10_receiver_unchanged_on_error:
  "(fst (UnmarshalBinary d b) \<noteq> None \<longrightarrow> snd (UnmarshalBinary d b) = d) \<and>
   (\<forall>err d'. UnmarshalText d s = Some (Some err, d') \<longrightarrow> d' = d)"
  by (auto simp: UnmarshalBinary_def UnmarshalText_def Let_def
           split: prod.splits option.splits sum.splits if_splits)

theorem C10_receiver_unchanged_on_error_witness:
  "fst (UnmarshalBinary 5 []) \<noteq> None \<and> snd (UnmarshalBinary 5 []) = 5 \<and>
   (\<exists>err. UnmarshalText 5 ''2024-01-9'' = Some (Some err, 5))"
proof -
  have 1: "fst (UnmarshalBinary 5 []) \<noteq> None"
    by (simp add: UnmarshalBinary_empty)
  obtain err d' where 2: "UnmarshalText 5 ''2024-01-9'' = Some (Some err, d')"
    by (simp add: UnmarshalText_def Parse_RFC3339_short_day)
  from C10_receiver_unchanged_on_error [of 5 "[]" "''2024-01-9''"] 1 2
  show ?thesis by auto
qed

section \<open>The loop of Parse\<close>

lemma parse_loop_append:
  "parse_loop a v (xs @ ys) s =
     (case parse_loop a v xs s of
        None \<Rightarrow> None
      | Some (Inl e) \<Rightarrow> Some (Inl e)
      | Some (Inr s') \<Rightarrow> parse_loop a v ys s')"
  by (induction xs arbitrary: s) (auto split: option.splits sum.splits)

subsection \<open>A month out of range\<close>

lemma parse_step_month_out_of_range:
  assumes "op i = opNumMonth \<or> op i = opZeroMonth"
    and "num (op i = opZeroMonth) (setInst i p) = (n, p')"
    and "n \<le>s 0 \<or> 12 <s n"
  shows "parse_step a v i (p, year, month, day, yday) =
           Some (Inl \<lparr>Layout = a, Value = v, LayoutElem = [], ValueElem = [],
                      Message = Text ''month out of range''\<rparr>)"
  using assms by (auto simp: parse_step_def parse_switch_def parser_err_def)

text \<open>
  Claim C6. Let the layout compile to instructions \<open>pre @ i # post\<close> where \<open>i\<close> is a numeric
  month token (\<^verbatim>\<open>1\<close> or \<^verbatim>\<open>01\<close>), let the instructions before it succeed on the input and let
  the month token then read a number (\<^verbatim>\<open>p.num\<close> does not fail) that is not in [1, 12].
  Then \<^verbatim>\<open>Parse\<close> fails with the \<^verbatim>\<open>ParseError\<close> that carries the message
  "month out of range" and no layout element or input fragment: the semantic kind of
  error, not the syntactic one.
\<close>

theorem C6_month_out_of_range:
  assumes "parseLayout layout = Some (pre @ i # post)"
    and "op i = opNumMonth \<or> op i = opZeroMonth"
    and "parse_loop layout v pre (newParser v, 0, - 1, - 1, - 1) =
           Some (Inr (p, year, month, day, yday))"
    and "num (op i = opZeroMonth) (setInst i p) = (n, p')"
    and "\<not> p_hasErr p'"
    and "n \<le>s 0 \<or> 12 <s n"
  shows "Parse layout v =
           Some (Inl \<lparr>Layout = layout, Value = v, LayoutElem = [], ValueElem = [],
                      Message = Text ''month out of range''\<rparr>)"
  using assms(1,3) parse_step_month_out_of_range [OF assms(2,4,6)]
  by (simp add: Parse_def memo_Get_def parse_loop_append)

lemma parseLayout_RFC3339_split:
  "parseLayout ''2006-01-02'' =
     Some ([\<lparr>op = opLongYear, lit = []\<rparr>, \<lparr>op = opLiteral, lit = ''-''\<rparr>] @
           \<lparr>op = opZeroMonth, lit = []\<rparr> #
           [\<lparr>op = opLiteral, lit = ''-''\<rparr>, \<lparr>op = opZeroDay, lit = []\<rparr>])"
  by code_simp

lemma parse_loop_2024_13_01:
  "parse_loop ''2006-01-02'' ''2024-13-01''
     [\<lparr>op = opLongYear, lit = []\<rparr>, \<lparr>op = opLiteral, lit = ''-''\<rparr>]
     (newParser ''2024-13-01'', 0, - 1, - 1, - 1) =
   Some (Inr (\<lparr>p_inst = \<lparr>op = opLiteral, lit = ''-''\<rparr>, p_hasErr = False,
                p_value = ''13-01'', p_valEl = ''-13-01'', p_errMsg = []\<rparr>,
              2024, - 1, - 1, - 1))"
  by code_simp

lemma num_13_01:
  "num (op \<lparr>op = opZeroMonth, lit = []\<rparr> = opZeroMonth)
     (setInst \<lparr>op = opZeroMonth, lit = []\<rparr>
        \<lparr>p_inst = \<lparr>op = opLiteral, lit = ''-''\<rparr>, p_hasErr = False,
          p_value = ''13-01'', p_valEl = ''-13-01'', p_errMsg = []\<rparr>) =
   (13, \<lparr>p_inst = \<lparr>op = opZeroMonth, lit = []\<rparr>, p_hasErr = False,
          p_value = ''-01'', p_valEl = ''13-01'', p_errMsg = []\<rparr>)"
  by code_simp

theorem C6_month_out_of_range_witness:
  "Parse ''2006-01-02'' ''2024-13-01'' =
     Some (Inl \<lparr>Layout = ''2006-01-02'', Value = ''2024-13-01'', LayoutElem = [],
                ValueElem = [], Message = Text ''month out of range''\<rparr>)"
  by (rule C6_month_out_of_range [OF parseLayout_RFC3339_split _ parse_loop_2024_13_01 num_13_01])
     (simp_all add: word_sless_alt word_sle_eq)

section \<open>Decimal digits\<close>

lemma digit_cases:
  fixes a :: int
  assumes "0 \<le> a" "a \<le> 9"
  shows "a \<in> {0, 1, 2, 3, 4, 5, 6, 7, 8, 9}"
proof -
  from assms have "a \<in> set [0..9]" by simp
  then show ?thesis by (simp add: upto.simps)
qed

lemma digit_char_table:
  "digit_char 0 = CHR ''0''" "digit_char 1 = CHR ''1''" "digit_char 2 = CHR ''2''"
  "digit_char 3 = CHR ''3''" "digit_char 4 = CHR ''4''" "digit_char 5 = CHR ''5''"
  "digit_char 6 = CHR ''6''" "digit_char 7 = CHR ''7''" "digit_char 8 = CHR ''8''"
  "digit_char 9 = CHR ''9''"
  by code_simp+

lemma digit_char_props:
  assumes "0 \<le> a" "a \<le> 9"
  shows "is_digit_char (digit_char a)"
    and "byte_of (digit_char a) - byte_of CHR ''0'' = word_of_int a"
    and "digit_char a \<noteq> CHR ''-''" and "digit_char a \<noteq> CHR ''+''"
    and "byte_of CHR ''0'' \<le> byte_of (digit_char a)"
    and "byte_of (digit_char a) \<le> byte_of CHR ''9''"
  using digit_cases [OF assms]
  by (auto simp: digit_char_table is_digit_char_def byte_of_def)

lemma div10s:
  "n div 10 div 10 = n div 100" "n div 10 div 100 = n div 1000" for n :: int
proof -
  show 1: "n div 10 div 10 = n div 100" for n :: int
    using zdiv_zmult2_eq [of 10 n 10] by simp
  have "n div 10 div 100 = n div 10 div 10 div 10"
    using 1 [of "n div 10"] by simp
  also have "\<dots> = n div 100 div 10" by (simp only: 1)
  also have "\<dots> = n div 1000"
    using zdiv_zmult2_eq [of 100 n 10] by simp
  finally show "n div 10 div 100 = n div 1000" .
qed

lemma utoa_small:
  assumes "0 \<le> n"
  shows "n < 10 \<Longrightarrow> utoa n = [digit_char n]"
    and "10 \<le> n \<Longrightarrow> n < 100 \<Longrightarrow> utoa n = [digit_char (n div 10), digit_char (n mod 10)]"
    and "100 \<le> n \<Longrightarrow> n < 1000 \<Longrightarrow>
           utoa n = [digit_char (n div 100), digit_char (n div 10 mod 10), digit_char (n mod 10)]"
    and "1000 \<le> n \<Longrightarrow> n < 10000 \<Longrightarrow>
           utoa n = [digit_char (n div 1000), digit_char (n div 100 mod 10),
                     digit_char (n div 10 mod 10), digit_char (n mod 10)]"
proof -
  show 1: "utoa n = [digit_char n]" if "n < 10" for n
    using that by (subst utoa.simps) simp
  show 2: "utoa n = [digit_char (n div 10), digit_char (n mod 10)]" if "10 \<le> n" "n < 100" for n
  proof -
    have "n div 10 < 10" using that by simp
    with that show ?thesis by (subst utoa.simps) (simp add: 1)
  qed
  show 3: "utoa n = [digit_char (n div 100), digit_char (n div 10 mod 10), digit_char (n mod 10)]"
    if "100 \<le> n" "n < 1000" for n
  proof -
    have "10 \<le> n div 10" "n div 10 < 100" using that by simp_all
    with that show ?thesis by (subst utoa.simps) (simp add: 2 div10s)
  qed
  show "utoa n = [digit_char (n div 1000), digit_char (n div 100 mod 10),
                     digit_char (n div 10 mod 10), digit_char (n mod 10)]"
    if "1000 \<le> n" "n < 10000"
  proof -
    have "100 \<le> n div 10" "n div 10 < 1000" using that by simp_all
    with that show ?thesis by (subst utoa.simps) (simp add: 3 div10s)
  qed
qed

lemma digit_char_0: "digit_char 0 = CHR ''0''"
  by (rule digit_char_table)

lemma woi8_uint_ucast:
  assumes "0 \<le> a" "a \<le> 9"
  shows "uint (word_of_int a :: 8 word) = a"
    and "(ucast (word_of_int a :: 8 word) :: 64 word) = word_of_int a"
proof -
  have t: "take_bit 8 a = a"
    using assms by (intro take_bit_int_eq_self) simp_all
  show "uint (word_of_int a :: 8 word) = a"
    using t by (simp add: uint_word_of_int_eq)
  show "(ucast (word_of_int a :: 8 word) :: 64 word) = word_of_int a"
    using t assms by (simp add: unsigned_of_int)
qed

lemma appendLongYear_4digits:
  assumes "0 \<le> n" "n \<le> 9999"
  shows "appendLongYear b (word_of_int n) =
           b @ [digit_char (n div 1000), digit_char (n div 100 mod 10),
                digit_char (n div 10 mod 10), digit_char (n mod 10)]"
proof -
  have s: "\<not> (word_of_int n :: 64 word) <s 0"
    "(word_of_int n :: 64 word) <s 1000 \<longleftrightarrow> n < 1000"
    "(word_of_int n :: 64 word) <s 100 \<longleftrightarrow> n < 100"
    "(word_of_int n :: 64 word) <s 10 \<longleftrightarrow> n < 10"
    using assms sless_woi64(1) [of n 0] sless_woi64(1) [of n 1000] sless_woi64(1) [of n 100]
      sless_woi64(1) [of n 10]
    by simp_all
  have u: "uint (word_of_int n :: 64 word) = n"
    using assms by (intro uint_woi64) simp_all
  consider "n < 10" | "10 \<le> n" "n < 100" | "100 \<le> n" "n < 1000" | "1000 \<le> n"
    by linarith
  then show ?thesis
  proof cases
    case 1
    then show ?thesis
      using assms utoa_small(1) [of n]
      by (simp add: appendLongYear_def AppendInt_def s u digit_char_0)
  next
    case 2
    then show ?thesis
      using assms utoa_small(2) [of n]
      by (simp add: appendLongYear_def AppendInt_def s u digit_char_0)
  next
    case 3
    then show ?thesis
      using assms utoa_small(3) [of n]
      by (simp add: appendLongYear_def AppendInt_def s u digit_char_0)
  next
    case 4
    then show ?thesis
      using assms utoa_small(4) [of n]
      by (simp add: appendLongYear_def AppendInt_def s u)
  qed
qed

lemma AppendInt_2digits:
  assumes "0 \<le> n" "n \<le> 99"
  shows "AppendInt (if (word_of_int n :: 64 word) <s 10 then b @ ''0'' else b) (word_of_int n) =
           b @ [digit_char (n div 10), digit_char (n mod 10)]"
proof -
  have s: "\<not> (word_of_int n :: 64 word) <s 0"
    "(word_of_int n :: 64 word) <s 10 \<longleftrightarrow> n < 10"
    using assms sless_woi64(1) [of n 0] sless_woi64(1) [of n 10]
    by simp_all
  have u: "uint (word_of_int n :: 64 word) = n"
    using assms by (intro uint_woi64) simp_all
  show ?thesis
  proof (cases "n < 10")
    case True
    then show ?thesis
      using assms utoa_small(1) [of n] by (simp add: AppendInt_def s u digit_char_0)
  next
    case False
    then show ?thesis
      using assms utoa_small(2) [of n] by (simp add: AppendInt_def s u)
  qed
qed

lemma isDigit_digit_char:
  assumes "0 \<le> a" "a \<le> 9"
  shows "isDigit (digit_char a # rest) 0"
  using digit_char_props(5,6) [OF assms] by (simp add: isDigit_def)

lemma isDigit_digit_char1:
  assumes "0 \<le> b" "b \<le> 9"
  shows "isDigit (c # digit_char b # rest) (Suc 0)"
  using digit_char_props(5,6) [OF assms] by (simp add: isDigit_def)

lemma Atoi_4digits:
  assumes "0 \<le> a" "a \<le> 9" "0 \<le> b" "b \<le> 9" "0 \<le> c" "c \<le> 9" "0 \<le> e" "e \<le> 9"
  shows "Atoi [digit_char a, digit_char b, digit_char c, digit_char e] =
           Some (word_of_int (1000 * a + 100 * b + 10 * c + e))"
proof -
  have "1000 * a + 100 * b + 10 * c + e < 2 ^ 63"
    using assms by simp
  then show ?thesis
    using assms
    by (simp add: Atoi_def Let_def digit_char_props woi8_uint_ucast)
qed

lemma getnumN_loop_stop: "\<not> i < N \<Longrightarrow> getnumN_loop N v i n = (i, n)"
  by (subst getnumN_loop.simps) simp

lemma getnumN_2digits:
  assumes "0 \<le> a" "a \<le> 9" "0 \<le> b" "b \<le> 9" and v: "p_value p = digit_char a # digit_char b # rest"
  shows "getnumN 2 True p = (word_of_int (10 * a + b), p\<lparr>p_value := rest\<rparr>)"
proof -
  have "getnumN_loop 2 (p_value p) 0 0 = (2, word_of_int (10 * a + b))"
    using assms
    by (simp add: getnumN_loop.simps [of _ _ 0] getnumN_loop.simps [of _ _ "Suc 0"]
          getnumN_loop_stop isDigit_digit_char isDigit_digit_char1
          digit_char_props woi8_uint_ucast v)
  then show ?thesis
    by (simp add: getnumN_def v)
qed

section \<open>Formatting and parsing with the layout RFC3339\<close>

lemma accept_char:
  assumes "p_value p = c # rest" "c \<noteq> CHR '' ''"
  shows "accept [c] p = p\<lparr>p_value := rest\<rparr>"
  using assms
  by (simp add: accept.simps [of "[c]"] accept.simps [of "[]"])

lemma atoi_4digits:
  assumes "0 \<le> a" "a \<le> 9" "0 \<le> b" "b \<le> 9" "0 \<le> c" "c \<le> 9" "0 \<le> e" "e \<le> 9"
    and v: "p_value p = digit_char a # digit_char b # digit_char c # digit_char e # rest"
  shows "atoi 4 (peekDigit p) = (word_of_int (1000 * a + 100 * b + 10 * c + e), p\<lparr>p_value := rest\<rparr>)"
  using isDigit_digit_char [OF assms(1,2)] Atoi_4digits [OF assms(1-8)]
  by (simp add: atoi_def peekDigit_def v)

lemma parseLayout_RFC3339:
  "parseLayout RFC3339 =
     Some [\<lparr>op = opLongYear, lit = []\<rparr>, \<lparr>op = opLiteral, lit = ''-''\<rparr>,
           \<lparr>op = opZeroMonth, lit = []\<rparr>, \<lparr>op = opLiteral, lit = ''-''\<rparr>,
           \<lparr>op = opZeroDay, lit = []\<rparr>]"
  by code_simp

lemma Parse_RFC3339_digits:
  assumes y: "0 \<le> a" "a \<le> 9" "0 \<le> b" "b \<le> 9" "0 \<le> c" "c \<le> 9" "0 \<le> e" "e \<le> 9"
    and m: "0 \<le> f" "f \<le> 9" "0 \<le> g" "g \<le> 9" "1 \<le> 10 * f + g" "10 * f + g \<le> 12"
    and d: "0 \<le> h" "h \<le> 9" "0 \<le> i" "i \<le> 9" "1 \<le> 10 * h + i"
    and v: "v = [digit_char a, digit_char b, digit_char c, digit_char e] @ ''-'' @
                [digit_char f, digit_char g] @ ''-'' @ [digit_char h, digit_char i]"
  shows "Parse RFC3339 v =
           Parse_day
             \<lparr>p_inst = \<lparr>op = opInvalid, lit = []\<rparr>, p_hasErr = False, p_value = [],
               p_valEl = [], p_errMsg = []\<rparr>
             RFC3339 v (word_of_int (1000 * a + 100 * b + 10 * c + e))
             (word_of_int (10 * f + g)) (word_of_int (10 * h + i))"
proof -
  have mr: "\<not> (word_of_int (10 * f + g) :: 64 word) \<le>s 0"
    "\<not> 12 <s (word_of_int (10 * f + g) :: 64 word)"
    "\<not> (word_of_int (10 * f + g) :: 64 word) <s 0"
    using m sless_woi64(2) [of "10 * f + g" 0] sless_woi64(1) [of 12 "10 * f + g"]
      sless_woi64(1) [of "10 * f + g" 0]
    by simp_all
  have dr: "\<not> (word_of_int (10 * h + i) :: 64 word) <s 0"
    using d sless_woi64(1) [of "10 * h + i" 0] by simp
  have neg: "\<not> (0 :: 64 word) \<le>s - 1"
    by (simp add: word_sle_eq)
  show ?thesis
    unfolding Parse_def memo_Get_def parseLayout_RFC3339 v
    using mr dr
    by (simp add: parse_step_def parse_switch_def setInst_def newParser_def finish_def
          atoi_4digits [OF y] accept_char num_def getnumN_2digits [OF m(1-4)]
          getnumN_2digits [OF d(1-4)] neg Parse_validate_def Let_def)
qed

lemma digits4:
  fixes n :: int
  assumes "0 \<le> n" "n \<le> 9999"
  shows "0 \<le> n div 1000" "n div 1000 \<le> 9" "0 \<le> n div 100 mod 10" "n div 100 mod 10 \<le> 9"
    "0 \<le> n div 10 mod 10" "n div 10 mod 10 \<le> 9" "0 \<le> n mod 10" "n mod 10 \<le> 9"
    "1000 * (n div 1000) + 100 * (n div 100 mod 10) + 10 * (n div 10 mod 10) + n mod 10 = n"
proof -
  show "0 \<le> n div 1000" "n div 1000 \<le> 9" "0 \<le> n div 100 mod 10" "n div 100 mod 10 \<le> 9"
    "0 \<le> n div 10 mod 10" "n div 10 mod 10 \<le> 9" "0 \<le> n mod 10" "n mod 10 \<le> 9"
    using assms by simp_all
  have "n = 10 * (n div 10) + n mod 10" by simp
  moreover have "n div 10 = 10 * (n div 10 div 10) + n div 10 mod 10" by simp
  moreover have "n div 10 div 10 = 10 * (n div 10 div 10 div 10) + n div 10 div 10 mod 10" by simp
  ultimately have "n = 1000 * (n div 10 div 10 div 10) + 100 * (n div 10 div 10 mod 10)
      + 10 * (n div 10 mod 10) + n mod 10"
    by linarith
  moreover have "n div 10 div 10 div 10 = n div 1000" "n div 10 div 10 = n div 100"
    using div10s [of n] div10s(1) [of "n div 10"] by simp_all
  ultimately show "1000 * (n div 1000) + 100 * (n div 100 mod 10) + 10 * (n div 10 mod 10)
      + n mod 10 = n"
    by simp
qed

lemma digits2:
  fixes n :: int
  assumes "0 \<le> n" "n \<le> 99"
  shows "0 \<le> n div 10" "n div 10 \<le> 9" "0 \<le> n mod 10" "n mod 10 \<le> 9"
    "10 * (n div 10) + n mod 10 = n"
  using assms by simp_all

lemma Format_RFC3339_digits:
  assumes "absDate (Date_abs d) True = Some (word_of_int n, word_of_int mi, word_of_int di, yday)"
    and "0 \<le> n" "n \<le> 9999" "0 \<le> mi" "mi \<le> 99" "0 \<le> di" "di \<le> 99"
  shows "Format d RFC3339 =
           Some ([digit_char (n div 1000), digit_char (n div 100 mod 10),
                  digit_char (n div 10 mod 10), digit_char (n mod 10)] @ ''-'' @
                 [digit_char (mi div 10), digit_char (mi mod 10)] @ ''-'' @
                 [digit_char (di div 10), digit_char (di mod 10)])"
  using assms(2-)
  by (simp add: Format_def AppendFormat_def assms(1) memo_Get_def parseLayout_RFC3339
        appendInst_def appendLongYear_4digits AppendInt_2digits)

lemma daysIn_le_31:
  assumes "1 \<le>s m" "m \<le>s 12" "daysIn m y = Some k"
  shows "k \<le>s 31"
proof -
  define mi where "mi = sint m"
  have mi: "1 \<le> mi" "mi \<le> 12" and m: "m = word_of_int mi"
    using assms by (simp_all add: mi_def word_sle_eq)
  have "md_bwd (isLeap y) mi" using mi by (rule md_bwd_all)
  moreover have "daysIn_leap (isLeap y) (word_of_int mi) = Some k"
    using assms(3) by (simp add: daysIn_leap m)
  ultimately show ?thesis
    by (auto simp: md_bwd_def split: option.splits)
qed

lemma Format_Parse_RFC3339:
  assumes "Date_Date d = Some (y, m, dd)" "0 \<le>s y" "y \<le>s 9999"
  shows "\<exists>s. Format d RFC3339 = Some s \<and> Parse RFC3339 s = Some (Inr d)"
proof -
  from Date_Of_roundtrip [of d] assms(1)
  obtain k where m: "1 \<le>s m" "m \<le>s 12" and dd: "1 \<le>s dd" "daysIn m y = Some k" "dd \<le>s k"
    and Of: "Of y m dd = Some d"
    by auto
  have k: "k \<le>s 31" using m dd(2) by (rule daysIn_le_31)
  obtain yday where abs: "absDate (Date_abs d) True = Some (y, m, dd, yday)"
    using assms(1) by (auto simp: Date_Date_def split: Option.bind_splits)
  define n where "n = sint y"
  define mi where "mi = sint m"
  define di where "di = sint dd"
  have n: "0 \<le> n" "n \<le> 9999" and y: "y = word_of_int n"
    using assms(2,3) by (simp_all add: n_def word_sle_eq)
  have mi: "1 \<le> mi" "mi \<le> 12" and m': "m = word_of_int mi"
    using m by (simp_all add: mi_def word_sle_eq)
  have di: "1 \<le> di" "di \<le> 31" and dd': "dd = word_of_int di"
    using dd(1,3) k by (simp_all add: di_def word_sle_eq)
  define v where "v = [digit_char (n div 1000), digit_char (n div 100 mod 10),
                  digit_char (n div 10 mod 10), digit_char (n mod 10)] @ ''-'' @
                 [digit_char (mi div 10), digit_char (mi mod 10)] @ ''-'' @
                 [digit_char (di div 10), digit_char (di mod 10)]"
  have F: "Format d RFC3339 = Some v"
    unfolding v_def using n mi di
    by (intro Format_RFC3339_digits [where yday = yday]) (simp_all add: abs y m' dd')
  have mi99: "0 \<le> mi" "mi \<le> 99" and di99: "0 \<le> di" "di \<le> 99"
    using mi di by simp_all
  note d4 = digits4 [OF n] and dm = digits2 [OF mi99] and dd2 = digits2 [OF di99]
  have "Parse RFC3339 v =
           Parse_day
             \<lparr>p_inst = \<lparr>op = opInvalid, lit = []\<rparr>, p_hasErr = False, p_value = [],
               p_valEl = [], p_errMsg = []\<rparr>
             RFC3339 v
             (word_of_int (1000 * (n div 1000) + 100 * (n div 100 mod 10) + 10 * (n div 10 mod 10) + n mod 10))
             (word_of_int (10 * (mi div 10) + mi mod 10)) (word_of_int (10 * (di div 10) + di mod 10))"
    using mi di
    by (intro Parse_RFC3339_digits d4(1-8) dm(1-4) dd2(1-4)) (simp_all only: dm(5) dd2(5) v_def)
  also have "\<dots> = Parse_day
             \<lparr>p_inst = \<lparr>op = opInvalid, lit = []\<rparr>, p_hasErr = False, p_value = [],
               p_valEl = [], p_errMsg = []\<rparr>
             RFC3339 v y m dd"
    by (simp only: d4(9) dm(5) dd2(5) y m' dd')
  also have "\<dots> = Some (Inr d)"
    using dd(1,3) by (simp add: Parse_day_def dd(2) Of word_sle_eq word_sless_alt)
  finally show ?thesis using F by blast
qed

text \<open>For every \<^verbatim>\<open>Date\<close> \<open>d\<close> whose year is in [0, 9999], \<^verbatim>\<open>d.Format(RFC3339)\<close> returns a
  string \<open>s\<close> and \<^verbatim>\<open>Parse(RFC3339, s)\<close> succeeds and returns \<open>d\<close>: this is the lemma
  \<open>Format_Parse_RFC3339\<close> above. For example:\<close>

lemma Date_Date_738893: "Date_Date 738893 = Some (2024, 1, 9)"
  by code_simp

lemma Format_Parse_RFC3339_738893:
  "\<exists>s. Format 738893 RFC3339 = Some s \<and> Parse RFC3339 s = Some (Inr 738893)"
proof -
  have "(0 :: 64 word) \<le>s 2024" "(2024 :: 64 word) \<le>s 9999"
    by (simp_all add: word_sle_eq)
  with Format_Parse_RFC3339 [OF Date_Date_738893] show ?thesis
    by blast
qed

lemma Of_10000_1_1: "Of 10000 1 1 = Some 3652059"
  by code_simp

lemma Of_minus_1_12_31: "Of (- 1) 12 31 = Some (- 367)"
  by code_simp

lemma Format_3652059: "Format 3652059 RFC3339 = Some ''10000-01-01''"
  by code_simp

lemma Parse_10000_01_01:
  "Parse RFC3339 ''10000-01-01'' =
     Some (Inl \<lparr>Layout = ''2006-01-02'', Value = ''10000-01-01'', LayoutElem = ''-'',
                ValueElem = ''0-01-01'', Message = Text []\<rparr>)"
  by code_simp

lemma Format_minus_367: "Format (- 367) RFC3339 = Some ''-0001-12-31''"
  by code_simp

lemma Parse_minus_0001_12_31:
  "Parse RFC3339 ''-0001-12-31'' =
     Some (Inl \<lparr>Layout = ''2006-01-02'', Value = ''-0001-12-31'', LayoutElem = ''2006'',
                ValueElem = ''-0001-12-31'', Message = Text []\<rparr>)"
  by code_simp

text \<open>
  Claim C2. For every \<^verbatim>\<open>Date\<close> \<open>d\<close>, \<^verbatim>\<open>Parse(RFC3339, d.Format(RFC3339))\<close> succeeds and
  returns \<open>d\<close>. The code does not do this outside the years 0000 to 9999. The \<^verbatim>\<open>Date\<close>
  3652059 is \<^verbatim>\<open>Of(10000, 1, 1)\<close>; \<^verbatim>\<open>Format\<close> writes its year with five digits, of which the
  year token of \<^verbatim>\<open>Parse\<close> reads four (\<^verbatim>\<open>atoi(4)\<close>), and \<^verbatim>\<open>Parse\<close> returns a \<^verbatim>\<open>ParseError\<close> at
  the literal \<^verbatim>\<open>-\<close>. The \<^verbatim>\<open>Date\<close> -367 is \<^verbatim>\<open>Of(-1, 12, 31)\<close>; \<^verbatim>\<open>Format\<close> writes its year with a
  sign, where the year token of \<^verbatim>\<open>Parse\<close> wants a digit (\<^verbatim>\<open>peekDigit\<close>), and \<^verbatim>\<open>Parse\<close> returns
  a \<^verbatim>\<open>ParseError\<close> at the year. \<^verbatim>\<open>MarshalText\<close> and \<^verbatim>\<open>UnmarshalText\<close> are \<^verbatim>\<open>Format\<close> and
  \<^verbatim>\<open>Parse\<close> with this layout, so \<^verbatim>\<open>UnmarshalText\<close> returns the error on what \<^verbatim>\<open>MarshalText\<close>
  wrote and leaves its receiver, here the zero \<^verbatim>\<open>Date\<close>, as it was; the test
  \<^verbatim>\<open>FuzzMarshalText\<close> of the repository requires the round trip for every triple of ints.
\<close>

theorem C2_Format_not_parsed_back:
  "Of 10000 1 1 = Some 3652059 \<and>
   Format 3652059 RFC3339 = Some ''10000-01-01'' \<and>
   Parse RFC3339 ''10000-01-01'' =
     Some (Inl \<lparr>Layout = ''2006-01-02'', Value = ''10000-01-01'', LayoutElem = ''-'',
                ValueElem = ''0-01-01'', Message = Text []\<rparr>) \<and>
   MarshalText 3652059 = Some ''10000-01-01'' \<and>
   UnmarshalText 0 ''10000-01-01'' =
     Some (Some \<lparr>Layout = ''2006-01-02'', Value = ''10000-01-01'', LayoutElem = ''-'',
                  ValueElem = ''0-01-01'', Message = Text []\<rparr>, 0) \<and>
   Of (- 1) 12 31 = Some (- 367) \<and>
   Format (- 367) RFC3339 = Some ''-0001-12-31'' \<and>
   Parse RFC3339 ''-0001-12-31'' =
     Some (Inl \<lparr>Layout = ''2006-01-02'', Value = ''-0001-12-31'', LayoutElem = ''2006'',
                ValueElem = ''-0001-12-31'', Message = Text []\<rparr>) \<and>
   MarshalText (- 367) = Some ''-0001-12-31'' \<and>
   UnmarshalText 0 ''-0001-12-31'' =
     Some (Some \<lparr>Layout = ''2006-01-02'', Value = ''-0001-12-31'', LayoutElem = ''2006'',
                  ValueElem = ''-0001-12-31'', Message = Text []\<rparr>, 0)"
  by (simp add: Of_10000_1_1 Of_minus_1_12_31 MarshalText_def Date_String_def UnmarshalText_def
      Format_3652059 Parse_10000_01_01 Format_minus_367 Parse_minus_0001_12_31)

section \<open>The two-digit year\<close>

lemma Atoi_2bytes:
  "Atoi [c1, c2] =
     (if is_digit_char c1 \<and> is_digit_char c2
      then Some (word_of_int (10 * uint (byte_of c1 - byte_of CHR ''0'')
                               + uint (byte_of c2 - byte_of CHR ''0'')))
      else if c1 = CHR ''-'' \<and> is_digit_char c2
      then Some (word_of_int (- uint (byte_of c2 - byte_of CHR ''0'')))
      else if c1 = CHR ''+'' \<and> is_digit_char c2
      then Some (word_of_int (uint (byte_of c2 - byte_of CHR ''0'')))
      else None)"
proof -
  have b: "uint (byte_of c2 - byte_of CHR ''0'') < 256" "uint (byte_of c1 - byte_of CHR ''0'') < 256"
    using uint_bounded [of "byte_of c2 - byte_of CHR ''0''"]
      uint_bounded [of "byte_of c1 - byte_of CHR ''0''"] by simp_all
  have nd: "\<not> is_digit_char CHR ''-''" "\<not> is_digit_char CHR ''+''"
    by (simp_all add: is_digit_char_def byte_of_def)
  show ?thesis
    using b nd by (auto simp: Atoi_def Let_def)
qed

lemma parse_step_opYear:
  "parse_step a v \<lparr>op = opYear, lit = l\<rparr> (p, year, month, day, yday) =
     (if p_hasErr p \<or> length (p_value p) < 2 \<or> Atoi (take 2 (p_value p)) = None
      then Some (Inl \<lparr>Layout = a, Value = v, LayoutElem = ''06'', ValueElem = p_value p,
                      Message = Text []\<rparr>)
      else
        let n = the (Atoi (take 2 (p_value p)))
        in Some (Inr (p\<lparr>p_inst := \<lparr>op = opYear, lit = l\<rparr>, p_valEl := p_value p,
                         p_value := drop 2 (p_value p)\<rparr>,
                      (if 69 \<le>s n then n + 1900 else n + 2000), month, day, yday)))"
  by (auto simp: parse_step_def parse_switch_def atoi_def setInst_def parseFailed_def
        parser_err_def inst_String_def Let_def split: option.splits)

lemma Parse_06_69: "Parse ''06'' ''69'' = map_option Inr (Of 1969 1 1)"
  by code_simp

lemma Parse_06_68: "Parse ''06'' ''68'' = map_option Inr (Of 2068 1 1)"
  by code_simp

lemma Of_1969: "Of 1969 1 1 = Some 718797"
  by (simp add: calendar_defs)

lemma Of_2068: "Of 2068 1 1 = Some 754956"
  by (simp add: calendar_defs)

lemma Parse_06_minus_5: "Parse ''06'' ''-5'' = Some (Inr 728293)"
  by code_simp

lemma Of_1995: "Of 1995 1 1 = Some 728293"
  by (simp add: calendar_defs)


text \<open>
  Claim C5 (amended). The 2-digit-year token reads exactly two bytes, which \<^verbatim>\<open>strconv.Atoi\<close>
  must accept as an integer \<open>n\<close>: two decimal digits, or a sign (\<^verbatim>\<open>+\<close> or \<^verbatim>\<open>-\<close>) followed by one
  decimal digit. The year is then \<open>n + 1900\<close> when \<open>n \<ge> 69\<close>, and \<open>n + 2000\<close> otherwise; with
  fewer than two bytes, or two bytes that \<^verbatim>\<open>Atoi\<close> rejects, the token fails with the syntactic
  error for the layout element \<^verbatim>\<open>06\<close>. In particular \<^verbatim>\<open>69\<close> parses to the year 1969 and \<^verbatim>\<open>68\<close>
  to the year 2068.
\<close>

theorem C5_two_digit_year:
  "parse_step a v \<lparr>op = opYear, lit = l\<rparr> (p, year, month, day, yday) =
     (if p_hasErr p \<or> length (p_value p) < 2 \<or> Atoi (take 2 (p_value p)) = None
      then Some (Inl \<lparr>Layout = a, Value = v, LayoutElem = ''06'', ValueElem = p_value p,
                      Message = Text []\<rparr>)
      else
        let n = the (Atoi (take 2 (p_value p)))
        in Some (Inr (p\<lparr>p_inst := \<lparr>op = opYear, lit = l\<rparr>, p_valEl := p_value p,
                         p_value := drop 2 (p_value p)\<rparr>,
                      (if 69 \<le>s n then n + 1900 else n + 2000), month, day, yday))) \<and>
   Atoi [c1, c2] =
     (if is_digit_char c1 \<and> is_digit_char c2
      then Some (word_of_int (10 * uint (byte_of c1 - byte_of CHR ''0'')
                               + uint (byte_of c2 - byte_of CHR ''0'')))
      else if c1 = CHR ''-'' \<and> is_digit_char c2
      then Some (word_of_int (- uint (byte_of c2 - byte_of CHR ''0'')))
      else if c1 = CHR ''+'' \<and> is_digit_char c2
      then Some (word_of_int (uint (byte_of c2 - byte_of CHR ''0'')))
      else None) \<and>
   Parse ''06'' ''69'' = map_option Inr (Of 1969 1 1) \<and> Of 1969 1 1 \<noteq> None \<and>
   Parse ''06'' ''68'' = map_option Inr (Of 2068 1 1) \<and> Of 2068 1 1 \<noteq> None"
  by (simp only: parse_step_opYear Atoi_2bytes Parse_06_69 Parse_06_68 Of_1969 Of_2068)
     simp

theorem C5_two_digit_year_witness:
  "parse_step ''06'' ''69'' \<lparr>op = opYear, lit = []\<rparr> (newParser ''69'', 0, - 1, - 1, - 1) =
     Some (Inr (\<lparr>p_inst = \<lparr>op = opYear, lit = []\<rparr>, p_hasErr = False, p_value = [],
                   p_valEl = ''69'', p_errMsg = []\<rparr>,
                1969, - 1, - 1, - 1))"
proof -
  have "Atoi ''69'' = Some 69"
    using C5_two_digit_year [of "[]" "[]" "[]" "newParser []" 0 0 0 0 "CHR ''6''" "CHR ''9''"]
    by (simp add: is_digit_char_def byte_of_def)
  then show ?thesis
    using C5_two_digit_year [of "''06''" "''69''" "[]" "newParser ''69''" 0 "- 1" "- 1" "- 1"
        "CHR ''6''" "CHR ''9''"]
    by (simp add: newParser_def word_sle_eq)
qed

text \<open>The claim as stated, that the token consumes exactly two digits, fails on the input
  \<^verbatim>\<open>-5\<close>: the token consumes the sign and the digit, and the year is 1995.\<close>

theorem C5_sign_counterexample:
  "Parse ''06'' ''-5'' = Some (Inr 728293) \<and> Of 1995 1 1 = Some 728293 \<and>
   \<not> is_digit_char CHR ''-''"
  by (simp add: Parse_06_minus_5 Of_1995 is_digit_char_def byte_of_def)

section \<open>The day of the year\<close>

lemma Parse_validate_yday:
  assumes "0 \<le>s yday"
  shows "Parse_validate p a v year month day yday =
     (case ydayMonthDay (isLeap year) yday of
        None \<Rightarrow> map_option Inl (parser_err p a v (Text ''day-of-year out of range''))
      | Some None \<Rightarrow> None
      | Some (Some (m, d)) \<Rightarrow>
          if 0 \<le>s month \<and> month \<noteq> m
          then map_option Inl (parser_err p a v (Text ''day-of-year does not match month''))
          else if 0 \<le>s day \<and> day \<noteq> d
          then map_option Inl (parser_err p a v (Text ''day-of-year does not match day''))
          else Parse_day p a v year m d)"
proof -
  define t :: "go_int \<times> go_int \<times> go_int" where
    "t = (if isLeap year
          then (if yday = 31 + 29 then (29, 2, yday)
                else if 31 + 29 <s yday then (0, 0, yday - 1)
                else (0, 0, yday))
          else (0, 0, yday))"
  obtain d0 m0 y0 where t: "t = (d0, m0, y0)"
    by (cases t)
  have PV: "Parse_validate p a v year month day yday =
      (if y0 <s 1 \<or> 365 <s y0
       then map_option Inl (parser_err p a v (Text ''day-of-year out of range''))
       else do {
         (d, m) \<leftarrow>
           (if m0 = 0
            then do {
              let m = quo (y0 - 1) 31 + 1;
              db \<leftarrow> index daysBefore m;
              let m = (if db <s y0 then m + 1 else m);
              db' \<leftarrow> index daysBefore (m - 1);
              Some (y0 - db', m)
            }
            else Some (d0, m0));
         (if 0 \<le>s month \<and> month \<noteq> m
          then map_option Inl
                 (parser_err p a v (Text ''day-of-year does not match month''))
          else if 0 \<le>s day \<and> day \<noteq> d
          then map_option Inl
                 (parser_err p a v (Text ''day-of-year does not match day''))
          else Parse_day p a v year m d)
       })"
    unfolding Parse_validate_def t_def [symmetric] t using assms by simp
  have YM: "ydayMonthDay (isLeap year) yday =
      (if y0 <s 1 \<or> 365 <s y0 then None
       else Some
         (if m0 = 0
          then do {
            let m = quo (y0 - 1) 31 + 1;
            db \<leftarrow> index daysBefore m;
            let m = (if db <s y0 then m + 1 else m);
            db' \<leftarrow> index daysBefore (m - 1);
            Some (m, y0 - db')
          }
          else Some (m0, d0)))"
    unfolding ydayMonthDay_def t_def [symmetric] t by simp
  show ?thesis
  proof (cases "m0 = 0")
    case False
    then show ?thesis
      unfolding PV YM by simp
  next
    case True
    define m1 where "m1 = quo (y0 - 1) 31 + 1"
    show ?thesis
    proof (cases "index daysBefore m1")
      case None
      then show ?thesis
        unfolding PV YM Let_def m1_def [symmetric] using True by simp
    next
      case (Some db)
      define m2 where "m2 = (if db <s y0 then m1 + 1 else m1)"
      show ?thesis
      proof (cases "index daysBefore (m2 - 1)")
        case None
        then show ?thesis
          unfolding PV YM Let_def m1_def [symmetric] using True Some
          by (simp add: m2_def [symmetric])
      next
        case (Some db')
        then show ?thesis
          unfolding PV YM Let_def m1_def [symmetric]
          using True \<open>index daysBefore m1 = Some db\<close>
          by (simp add: m2_def [symmetric])
      qed
    qed
  qed
qed

lemma yd_ok_leap: "list_all (yd_ok True) [1..366]"
  by (simp add: yd_ok_def ydayMonthDay_def md_eval)

lemma yd_ok_common: "list_all (yd_ok False) [1..365]"
  by (simp add: yd_ok_def ydayMonthDay_def md_eval)

lemma ydayMonthDay_out:
  assumes "0 \<le>s yday" "yday = 0 \<or> (if leap then 366 else 365) <s yday"
  shows "ydayMonthDay leap yday = None"
proof -
  have s: "sint (yday - 1) = sint yday - 1"
    using assms(1) sint_range_size [of yday]
    by (simp add: sint_word_diff signed_take_bit_int_eq_self word_sle_eq word_size)
  show ?thesis
    using assms s
    by (auto simp: ydayMonthDay_def word_sle_eq word_sless_alt split: if_splits)
qed


lemma yd_ok_all:
  assumes "1 \<le> k" "k \<le> (if leap then 366 else 365)"
  shows "yd_ok leap k"
proof (cases leap)
  case True
  with assms have "k \<in> set [1..366]" by simp
  with yd_ok_leap True show ?thesis by (simp add: list_all_iff del: set_upto)
next
  case False
  with assms have "k \<in> set [1..365]" by simp
  with yd_ok_common False show ?thesis by (simp add: list_all_iff del: set_upto)
qed

lemma Parse_validate_in_year:
  assumes "1 \<le>s yday" "yday \<le>s (if isLeap year then 366 else 365)"
  shows "\<exists>m d j. monthDay (isLeap year) (yday - 1) = Some (m, d) \<and>
           Of year 1 1 = Some j \<and> Of year m d = Some (j + (yday - 1)) \<and>
           1 \<le>s m \<and> m \<le>s 12 \<and> 1 \<le>s d \<and>
           Parse_validate p a v year month day yday =
             (if 0 \<le>s month \<and> month \<noteq> m
              then map_option Inl (parser_err p a v (Text ''day-of-year does not match month''))
              else if 0 \<le>s day \<and> day \<noteq> d
              then map_option Inl (parser_err p a v (Text ''day-of-year does not match day''))
              else Some (Inr (j + (yday - 1))))"
proof -
  define leap where "leap = isLeap year"
  define k where "k = sint yday"
  have yday: "yday = word_of_int k"
    by (simp add: k_def)
  have k: "1 \<le> k" "k \<le> (if leap then 366 else 365)"
    using assms by (simp_all add: k_def leap_def word_sle_eq split: if_splits)
  have nn: "0 \<le>s yday"
    using k by (simp add: k_def word_sle_eq)
  have w: "(word_of_int (k - 1) :: 64 word) = yday - 1"
    by (simp add: yday)
  have "md_fwd leap (k - 1)"
    using k by (intro md_fwd_all) (simp_all split: if_splits)
  then obtain m d n db where md: "monthDay leap (yday - 1) = Some (m, d)"
    and rng: "1 \<le>s m" "m \<le>s 12" "1 \<le>s d" "daysIn_leap leap m = Some n" "d \<le>s n"
    and db: "index daysBefore (m - 1) = Some db"
      "db + (if leap \<and> 3 \<le>s m then 1 else 0) + (d - 1) = yday - 1"
    unfolding md_fwd_def w by (auto split: option.splits)
  have "yd_ok leap k"
    using k by (rule yd_ok_all)
  then have ym: "ydayMonthDay leap yday = Some (Some (m, d))"
    by (simp add: yd_ok_def yday [symmetric] md)
  have nd: "\<not> d <s 1" "\<not> n <s d"
    using rng by (simp_all add: word_sle_eq word_sless_alt)
  have one: "(1 :: 64 word) \<le>s 1" "(1 :: 64 word) \<le>s 12" "index daysBefore (1 - 1 :: 64 word) = Some 0"
    by (simp_all add: index_def daysBefore_def word_sle_eq)
  have j: "Of year 1 1 = Some (daysSinceEpoch year - internalToAbsolute)"
    using Of_in_range [OF one, of year 1] by (simp add: word_sle_eq)
  have "Of year m d = Some (daysSinceEpoch year + db + (if isLeap year \<and> 3 \<le>s m then 1 else 0)
                   + (d - 1) - internalToAbsolute)"
    using rng(1,2) db(1) by (rule Of_in_range)
  also have "daysSinceEpoch year + db + (if isLeap year \<and> 3 \<le>s m then 1 else 0)
                   + (d - 1) - internalToAbsolute
      = daysSinceEpoch year - internalToAbsolute + (yday - 1)"
    using db(2) by (simp add: leap_def [symmetric] algebra_simps)
  finally have ofmd: "Of year m d = Some (daysSinceEpoch year - internalToAbsolute + (yday - 1))" .
  have pd: "Parse_day p a v year m d =
      Some (Inr (daysSinceEpoch year - internalToAbsolute + (yday - 1)))"
    using nd rng(4) by (simp add: Parse_day_def daysIn_leap leap_def [symmetric] ofmd)
  have "Parse_validate p a v year month day yday =
             (if 0 \<le>s month \<and> month \<noteq> m
              then map_option Inl (parser_err p a v (Text ''day-of-year does not match month''))
              else if 0 \<le>s day \<and> day \<noteq> d
              then map_option Inl (parser_err p a v (Text ''day-of-year does not match day''))
              else Some (Inr (daysSinceEpoch year - internalToAbsolute + (yday - 1))))"
    unfolding Parse_validate_yday [OF nn] leap_def [symmetric] ym by (simp add: pd)
  with md j ofmd rng(1-3) show ?thesis
    unfolding leap_def by blast
qed

lemma Parse_validate_out_of_year:
  assumes "0 \<le>s yday" "yday = 0 \<or> (if isLeap year then 366 else 365) <s yday"
  shows "Parse_validate p a v year month day yday =
           map_option Inl (parser_err p a v (Text ''day-of-year out of range''))"
  unfolding Parse_validate_yday [OF assms(1)] ydayMonthDay_out [OF assms] by simp

lemma monthDay_365: "monthDay True (366 - 1) = Some (12, 31)"
  by code_simp


lemma Parse_after_loop:
  assumes "memo_Get layout = Some prog"
    and "parse_loop layout v prog (newParser v, 0, - 1, - 1, - 1) =
           Some (Inr (p, year, month, day, yday))"
    and "p_value p = []"
  shows "Parse layout v = Parse_validate (finish p) layout v year month day yday"
  using assms by (simp add: Parse_def Let_def)

lemma parser_err_Text:
  "msg \<noteq> [] \<Longrightarrow>
     map_option Inl (parser_err p layout v (Text msg)) =
       Some (Inl \<lparr>Layout = layout, Value = v, LayoutElem = [], ValueElem = [],
                   Message = Text msg\<rparr>)"
  by (simp add: parser_err_def)

lemma Parse_2024_366: "Parse ''2006 __2'' ''2024 366'' = Some (Inr 739250)"
  by code_simp

lemma Of_2024_12_31: "Of 2024 12 31 = Some 739250"
  by code_simp

lemma Parse_2023_366:
  "Parse ''2006 __2'' ''2023 366'' =
     Some (Inl \<lparr>Layout = ''2006 __2'', Value = ''2023 366'', LayoutElem = [],
                 ValueElem = [], Message = Text ''day-of-year out of range''\<rparr>)"
  by code_simp

lemma Parse_2024_11_366:
  "Parse ''2006-01 __2'' ''2024-11 366'' =
     Some (Inl \<lparr>Layout = ''2006-01 __2'', Value = ''2024-11 366'', LayoutElem = [],
                 ValueElem = [], Message = Text ''day-of-year does not match month''\<rparr>)"
  by code_simp

lemma Parse_2024_12_30_366:
  "Parse ''2006-01-02 __2'' ''2024-12-30 366'' =
     Some (Inl \<lparr>Layout = ''2006-01-02 __2'', Value = ''2024-12-30 366'', LayoutElem = [],
                 ValueElem = [], Message = Text ''day-of-year does not match day''\<rparr>)"
  by code_simp

lemma Parse_2024_12_31_366: "Parse ''2006-01-02 __2'' ''2024-12-31 366'' = Some (Inr 739250)"
  by code_simp

lemma Parse_2024_060: "Parse ''2006 __2'' ''2024 060'' = Some (Inr 738944)"
  by code_simp

lemma Of_2024_2_29: "Of 2024 2 29 = Some 738944"
  by code_simp

lemma Parse_2023_060: "Parse ''2006 __2'' ''2023 060'' = Some (Inr 738579)"
  by code_simp

lemma Of_2023_3_1: "Of 2023 3 1 = Some 738579"
  by code_simp

lemma memo_Get_2006_yday:
  "memo_Get ''2006 __2'' =
     Some [\<lparr>op = opLongYear, lit = []\<rparr>, \<lparr>op = opLiteral, lit = '' ''\<rparr>,
           \<lparr>op = opUnderYearDay, lit = []\<rparr>]"
  by code_simp

lemma parse_loop_2024_366:
  "parse_loop ''2006 __2'' ''2024 366''
     [\<lparr>op = opLongYear, lit = []\<rparr>, \<lparr>op = opLiteral, lit = '' ''\<rparr>,
      \<lparr>op = opUnderYearDay, lit = []\<rparr>]
     (newParser ''2024 366'', 0, - 1, - 1, - 1) =
   Some (Inr (\<lparr>p_inst = \<lparr>op = opUnderYearDay, lit = []\<rparr>, p_hasErr = False,
                p_value = [], p_valEl = ''366'', p_errMsg = []\<rparr>,
              2024, - 1, - 1, 366))"
  by code_simp

lemma isLeap_2024: "isLeap 2024"
  by code_simp

text \<open>
  Claim C3. Let the layout compile, let the tokens of the layout read the whole input
  without error, and let them leave \<open>year\<close>, \<open>month\<close>, \<open>day\<close> and \<open>yday\<close> (\<open>month\<close> and \<open>day\<close>
  are -1 when no token set them; \<open>yday\<close> is at least 0 exactly when a day-of-year token
  set it). Then:

  \<^item> with the day of the year 366, \<^verbatim>\<open>Parse\<close> fails with \<^verbatim>\<open>day-of-year out of range\<close> when the
    year is not a leap year; when it is, \<^verbatim>\<open>Parse\<close> fails with
    \<^verbatim>\<open>day-of-year does not match month\<close> if a month other than 12 was read, with
    \<^verbatim>\<open>day-of-year does not match day\<close> if a day other than 31 was read, and returns
    \<^verbatim>\<open>Of(year, 12, 31)\<close> otherwise;
  \<^item> the day of the year 0, and any day of the year past the length of the year (365,
    or 366 in a leap year), fails with \<^verbatim>\<open>day-of-year out of range\<close>;
  \<^item> a day of the year from 1 to the length of the year stands for the month \<open>m\<close> and the
    day \<open>d\<close> that \<^verbatim>\<open>absDate\<close> gives to that day of the year (in a leap year day 60 is
    February 29): \<^verbatim>\<open>Parse\<close> fails with \<^verbatim>\<open>day-of-year does not match month\<close> if a month
    other than \<open>m\<close> was read, with \<^verbatim>\<open>day-of-year does not match day\<close> if a day other than
    \<open>d\<close> was read, and otherwise returns \<^verbatim>\<open>Of(year, m, d)\<close>, which is \<open>yday - 1\<close> days after
    \<^verbatim>\<open>Of(year, 1, 1)\<close>.
\<close>

theorem C3_day_of_year:
  assumes "memo_Get layout = Some prog"
    and "parse_loop layout v prog (newParser v, 0, - 1, - 1, - 1) =
           Some (Inr (p, year, month, day, yday))"
    and "p_value p = []"
  shows "(yday = 366 \<longrightarrow>
            (\<exists>dt. Of year 12 31 = Some dt \<and>
               Parse layout v =
                 (if \<not> isLeap year
                  then Some (Inl \<lparr>Layout = layout, Value = v, LayoutElem = [], ValueElem = [],
                                   Message = Text ''day-of-year out of range''\<rparr>)
                  else if 0 \<le>s month \<and> month \<noteq> 12
                  then Some (Inl \<lparr>Layout = layout, Value = v, LayoutElem = [], ValueElem = [],
                                   Message = Text ''day-of-year does not match month''\<rparr>)
                  else if 0 \<le>s day \<and> day \<noteq> 31
                  then Some (Inl \<lparr>Layout = layout, Value = v, LayoutElem = [], ValueElem = [],
                                   Message = Text ''day-of-year does not match day''\<rparr>)
                  else Some (Inr dt)))) \<and>
         (0 \<le>s yday \<and> (yday = 0 \<or> (if isLeap year then 366 else 365) <s yday) \<longrightarrow>
            Parse layout v =
              Some (Inl \<lparr>Layout = layout, Value = v, LayoutElem = [], ValueElem = [],
                          Message = Text ''day-of-year out of range''\<rparr>)) \<and>
         (1 \<le>s yday \<and> yday \<le>s (if isLeap year then 366 else 365) \<longrightarrow>
            (\<exists>m d j. monthDay (isLeap year) (yday - 1) = Some (m, d) \<and>
               1 \<le>s m \<and> m \<le>s 12 \<and> 1 \<le>s d \<and>
               Of year 1 1 = Some j \<and> Of year m d = Some (j + (yday - 1)) \<and>
               Parse layout v =
                 (if 0 \<le>s month \<and> month \<noteq> m
                  then Some (Inl \<lparr>Layout = layout, Value = v, LayoutElem = [], ValueElem = [],
                                   Message = Text ''day-of-year does not match month''\<rparr>)
                  else if 0 \<le>s day \<and> day \<noteq> d
                  then Some (Inl \<lparr>Layout = layout, Value = v, LayoutElem = [], ValueElem = [],
                                   Message = Text ''day-of-year does not match day''\<rparr>)
                  else Some (Inr (j + (yday - 1))))))"
proof -
  note P = Parse_after_loop [OF assms]
  have out: "Parse layout v =
              Some (Inl \<lparr>Layout = layout, Value = v, LayoutElem = [], ValueElem = [],
                          Message = Text ''day-of-year out of range''\<rparr>)"
    if "0 \<le>s yday" "yday = 0 \<or> (if isLeap year then 366 else 365) <s yday"
    unfolding P Parse_validate_out_of_year [OF that] by (simp add: parser_err_Text)
  have inn: "\<exists>m d j. monthDay (isLeap year) (yday - 1) = Some (m, d) \<and>
               1 \<le>s m \<and> m \<le>s 12 \<and> 1 \<le>s d \<and>
               Of year 1 1 = Some j \<and> Of year m d = Some (j + (yday - 1)) \<and>
               Parse layout v =
                 (if 0 \<le>s month \<and> month \<noteq> m
                  then Some (Inl \<lparr>Layout = layout, Value = v, LayoutElem = [], ValueElem = [],
                                   Message = Text ''day-of-year does not match month''\<rparr>)
                  else if 0 \<le>s day \<and> day \<noteq> d
                  then Some (Inl \<lparr>Layout = layout, Value = v, LayoutElem = [], ValueElem = [],
                                   Message = Text ''day-of-year does not match day''\<rparr>)
                  else Some (Inr (j + (yday - 1))))"
    if h: "1 \<le>s yday" "yday \<le>s (if isLeap year then 366 else 365)"
  proof -
    obtain m d j where *: "monthDay (isLeap year) (yday - 1) = Some (m, d)"
      "Of year 1 1 = Some j" "Of year m d = Some (j + (yday - 1))"
      "1 \<le>s m" "m \<le>s 12" "1 \<le>s d"
      and pv: "Parse_validate (finish p) layout v year month day yday =
             (if 0 \<le>s month \<and> month \<noteq> m
              then map_option Inl (parser_err (finish p) layout v (Text ''day-of-year does not match month''))
              else if 0 \<le>s day \<and> day \<noteq> d
              then map_option Inl (parser_err (finish p) layout v (Text ''day-of-year does not match day''))
              else Some (Inr (j + (yday - 1))))"
      using Parse_validate_in_year [OF h, of "finish p" layout v month day] by blast
    show ?thesis
      using * unfolding P pv by (simp add: parser_err_Text)
  qed
  have l: "(1 :: 64 word) \<le>s 366" "(0 :: 64 word) \<le>s 366" "\<not> (366 :: 64 word) <s 366"
    "(365 :: 64 word) <s 366" "(366 :: 64 word) \<noteq> 0"
    by (simp_all add: word_sle_eq word_sless_alt)
  have last: "\<exists>dt. Of year 12 31 = Some dt \<and>
               Parse layout v =
                 (if \<not> isLeap year
                  then Some (Inl \<lparr>Layout = layout, Value = v, LayoutElem = [], ValueElem = [],
                                   Message = Text ''day-of-year out of range''\<rparr>)
                  else if 0 \<le>s month \<and> month \<noteq> 12
                  then Some (Inl \<lparr>Layout = layout, Value = v, LayoutElem = [], ValueElem = [],
                                   Message = Text ''day-of-year does not match month''\<rparr>)
                  else if 0 \<le>s day \<and> day \<noteq> 31
                  then Some (Inl \<lparr>Layout = layout, Value = v, LayoutElem = [], ValueElem = [],
                                   Message = Text ''day-of-year does not match day''\<rparr>)
                  else Some (Inr dt))"
    if y: "yday = 366"
  proof (cases "isLeap year")
    case False
    obtain dt where "Of year 12 31 = Some dt"
      using Of_total by blast
    moreover have "Parse layout v =
              Some (Inl \<lparr>Layout = layout, Value = v, LayoutElem = [], ValueElem = [],
                          Message = Text ''day-of-year out of range''\<rparr>)"
      using False l by (intro out) (simp_all add: y)
    ultimately show ?thesis
      using False by simp
  next
    case True
    have "1 \<le>s yday" "yday \<le>s (if isLeap year then 366 else 365)"
      using True l by (simp_all add: y)
    from inn [OF this] obtain m d j where
      md: "monthDay (isLeap year) (yday - 1) = Some (m, d)"
      and dt: "Of year m d = Some (j + (yday - 1))"
      and P': "Parse layout v =
                 (if 0 \<le>s month \<and> month \<noteq> m
                  then Some (Inl \<lparr>Layout = layout, Value = v, LayoutElem = [], ValueElem = [],
                                   Message = Text ''day-of-year does not match month''\<rparr>)
                  else if 0 \<le>s day \<and> day \<noteq> d
                  then Some (Inl \<lparr>Layout = layout, Value = v, LayoutElem = [], ValueElem = [],
                                   Message = Text ''day-of-year does not match day''\<rparr>)
                  else Some (Inr (j + (yday - 1))))"
      by blast
    have "m = 12" "d = 31"
      using md monthDay_365 unfolding y by (simp_all add: True)
    with dt P' True show ?thesis
      by simp
  qed
  from out inn last show ?thesis
    by blast
qed


theorem C3_day_of_year_witness:
  "memo_Get ''2006 __2'' =
     Some [\<lparr>op = opLongYear, lit = []\<rparr>, \<lparr>op = opLiteral, lit = '' ''\<rparr>,
           \<lparr>op = opUnderYearDay, lit = []\<rparr>] \<and>
   parse_loop ''2006 __2'' ''2024 366''
     [\<lparr>op = opLongYear, lit = []\<rparr>, \<lparr>op = opLiteral, lit = '' ''\<rparr>,
      \<lparr>op = opUnderYearDay, lit = []\<rparr>]
     (newParser ''2024 366'', 0, - 1, - 1, - 1) =
   Some (Inr (\<lparr>p_inst = \<lparr>op = opUnderYearDay, lit = []\<rparr>, p_hasErr = False,
                p_value = [], p_valEl = ''366'', p_errMsg = []\<rparr>,
              2024, - 1, - 1, 366)) \<and>
   isLeap 2024 \<and> (1 :: 64 word) \<le>s 366 \<and> Of 2024 12 31 = Some 739250 \<and>
   Parse ''2006 __2'' ''2024 366'' = Some (Inr 739250)"
proof -
  have n: "\<not> (0 :: 64 word) \<le>s - 1" "(1 :: 64 word) \<le>s 366"
    by (simp_all add: word_sle_eq)
  have "\<exists>dt. Of 2024 12 31 = Some dt \<and>
          Parse ''2006 __2'' ''2024 366'' =
            (if \<not> isLeap 2024
             then Some (Inl \<lparr>Layout = ''2006 __2'', Value = ''2024 366'', LayoutElem = [],
                              ValueElem = [], Message = Text ''day-of-year out of range''\<rparr>)
             else if (0 :: 64 word) \<le>s - 1 \<and> (- 1 :: 64 word) \<noteq> 12
             then Some (Inl \<lparr>Layout = ''2006 __2'', Value = ''2024 366'', LayoutElem = [],
                              ValueElem = [],
                              Message = Text ''day-of-year does not match month''\<rparr>)
             else if (0 :: 64 word) \<le>s - 1 \<and> (- 1 :: 64 word) \<noteq> 31
             then Some (Inl \<lparr>Layout = ''2006 __2'', Value = ''2024 366'', LayoutElem = [],
                              ValueElem = [],
                              Message = Text ''day-of-year does not match day''\<rparr>)
             else Some (Inr dt))"
    using C3_day_of_year [OF memo_Get_2006_yday parse_loop_2024_366] by simp
  then have "Parse ''2006 __2'' ''2024 366'' = Some (Inr 739250)"
    unfolding Of_2024_12_31 using isLeap_2024 n by auto
  with memo_Get_2006_yday parse_loop_2024_366 isLeap_2024 n(2) Of_2024_12_31 show ?thesis
    by (intro conjI)
qed

section \<open>The weekday token\<close>

lemma byte_of_inj: "byte_of c = byte_of d \<longleftrightarrow> c = d"
proof
  assume "byte_of c = byte_of d"
  then have "unat (of_nat (of_char c :: nat) :: 8 word) = unat (of_nat (of_char d :: nat) :: 8 word)"
    by (simp only: byte_of_def of_nat_of_char)
  then have "(of_char c :: nat) mod 256 = of_char d mod 256"
    unfolding unat_of_nat by simp
  then show "c = d"
    by simp
qed simp

lemma or_32:
  fixes x :: "8 word"
  shows "x OR 32 = (if bit x 5 then x else x + 32)"
proof (cases "bit x 5")
  case True
  have "x OR 2 ^ 5 = x"
  proof (rule bit_eqI)
    fix n
    show "bit (x OR 2 ^ 5) n \<longleftrightarrow> bit x n"
      unfolding bit_or_iff bit_exp_iff using True by auto
  qed
  then show ?thesis
    using True by simp
next
  case False
  have "x + 2 ^ 5 = x OR 2 ^ 5"
  proof (rule disjunctive_add)
    fix n
    show "\<not> bit x n \<or> \<not> bit (2 ^ 5 :: 8 word) n"
      unfolding bit_exp_iff using False by auto
  qed
  then show ?thesis
    using False by simp
qed

lemma fold_byte:
  fixes x :: "8 word"
  shows "(if 65 \<le> x \<and> x \<le> 90 then x + 32 else x) =
         (if 97 \<le> x OR 32 \<and> x OR 32 \<le> 122 then x OR 32 else x)"
proof -
  define n where "n = uint x"
  have n: "0 \<le> n" "n < 256"
    using uint_bounded [of x] by (simp_all add: n_def)
  have b: "bit x 5 \<longleftrightarrow> odd (n div 32)"
    using bit_uint_iff [of x 5] by (simp add: n_def bit_iff_odd)
  have le: "65 \<le> x \<longleftrightarrow> 65 \<le> n" "x \<le> 90 \<longleftrightarrow> n \<le> 90" "97 \<le> x \<longleftrightarrow> 97 \<le> n"
    "x \<le> 122 \<longleftrightarrow> n \<le> 122"
    by (simp_all add: word_le_def n_def)
  show ?thesis
  proof (cases "bit x 5")
    case True
    have "\<not> (65 \<le> n \<and> n \<le> 90)"
    proof
      assume "65 \<le> n \<and> n \<le> 90"
      then have "n div 32 = 2" by presburger
      with True b show False by simp
    qed
    then show ?thesis
      using True by (simp add: or_32 le)
  next
    case False
    have "n < 224"
    proof (rule ccontr)
      assume "\<not> n < 224"
      with n have "n div 32 = 7" by presburger
      with False b show False by simp
    qed
    then have u: "uint (x + 32) = n + 32"
      using n by (simp add: uint_word_ariths n_def [symmetric])
    have le': "97 \<le> x + 32 \<longleftrightarrow> 97 \<le> n + 32" "x + 32 \<le> 122 \<longleftrightarrow> n + 32 \<le> 122"
      by (simp_all add: word_le_def u)
    show ?thesis
      using False by (auto simp: or_32 le le')
  qed
qed

lemma match_char:
  "(c1 = c2 \<or>
     \<not> (byte_of c1 OR (byte_of CHR ''a'' - byte_of CHR ''A'') \<noteq>
          byte_of c2 OR (byte_of CHR ''a'' - byte_of CHR ''A'') \<or>
        byte_of c1 OR (byte_of CHR ''a'' - byte_of CHR ''A'') < byte_of CHR ''a'' \<or>
        byte_of CHR ''z'' < byte_of c1 OR (byte_of CHR ''a'' - byte_of CHR ''A''))) \<longleftrightarrow>
   lower_case c1 = lower_case c2"
proof -
  define x1 where "x1 = byte_of c1"
  define x2 where "x2 = byte_of c2"
  define g where "g x \<longleftrightarrow> 97 \<le> x OR 32 \<and> x OR 32 \<le> 122" for x :: "8 word"
  have k: "byte_of CHR ''a'' - byte_of CHR ''A'' = 32" "byte_of CHR ''a'' = 97"
    "byte_of CHR ''z'' = 122" "byte_of CHR ''A'' = 65" "byte_of CHR ''Z'' = 90"
    by (simp_all add: byte_of_def)
  have "lower_case c = (if 65 \<le> byte_of c \<and> byte_of c \<le> 90 then byte_of c + 32 else byte_of c)"
    for c
    by (simp add: lower_case_def k)
  then have L': "lower_case c = (if g (byte_of c) then byte_of c OR 32 else byte_of c)" for c
    unfolding g_def by (simp only: fold_byte)
  have L: "lower_case c1 = (if g x1 then x1 OR 32 else x1)"
    "lower_case c2 = (if g x2 then x2 OR 32 else x2)"
    unfolding x1_def x2_def by (rule L')+
  have idem: "(x OR 32) OR 32 = x OR 32" for x :: "8 word"
    by (simp add: or.assoc)
  have gi: "g (x OR 32) \<longleftrightarrow> g x" for x :: "8 word"
    by (simp add: g_def idem)
  have e: "c1 = c2 \<longleftrightarrow> x1 = x2"
    by (simp add: x1_def x2_def byte_of_inj)
  have "(x1 = x2 \<or> (x1 OR 32 = x2 OR 32 \<and> g x1)) \<longleftrightarrow>
        (if g x1 then x1 OR 32 else x1) = (if g x2 then x2 OR 32 else x2)"
  proof (cases "g x1"; cases "g x2")
    assume a: "g x1" "\<not> g x2"
    have "x1 OR 32 \<noteq> x2"
      using gi [of x1] a by auto
    moreover have "x1 OR 32 \<noteq> x2 OR 32"
      using a by (auto simp: g_def)
    ultimately show ?thesis
      using a by auto
  next
    assume a: "\<not> g x1" "g x2"
    have "x1 \<noteq> x2 OR 32"
      using gi [of x2] a by auto
    then show ?thesis
      using a by auto
  qed (auto simp: g_def)
  then show ?thesis
    unfolding L e k x1_def [symmetric] x2_def [symmetric]
    by (auto simp: g_def not_less not_le)
qed

lemma match_fold:
  "length s1 = length s2 \<Longrightarrow> match s1 s2 = Some (equal_ignoring_case s1 s2)"
proof (induction s1 s2 rule: list_induct2)
  case Nil
  show ?case by (simp add: equal_ignoring_case_def)
next
  case (Cons c1 s1 c2 s2)
  show ?case
    using match_char [of c1 c2] Cons.IH
    by (auto simp: equal_ignoring_case_def Let_def)
qed


lemma equal_ignoring_case_length:
  "equal_ignoring_case (take (length n) val) n \<Longrightarrow> length n \<le> length val"
proof -
  assume "equal_ignoring_case (take (length n) val) n"
  then have "length (map lower_case (take (length n) val)) = length (map lower_case n)"
    unfolding equal_ignoring_case_def by (rule arg_cong)
  then show ?thesis
    by simp
qed

lemma lookup_from_step:
  "lookup_from i (n # table) p =
     (if equal_ignoring_case (take (length n) (p_value p)) n
      then Some (i, p\<lparr>p_value := drop (length n) (p_value p)\<rparr>)
      else lookup_from (i + 1) table p)"
proof (cases "length n \<le> length (p_value p)")
  case True
  then have "length (take (length n) (p_value p)) = length n"
    by simp
  then have "match (take (length n) (p_value p)) n =
      Some (equal_ignoring_case (take (length n) (p_value p)) n)"
    by (rule match_fold)
  with True show ?thesis
    by simp
next
  case False
  then have "\<not> equal_ignoring_case (take (length n) (p_value p)) n"
    using equal_ignoring_case_length by blast
  with False show ?thesis
    by simp
qed

lemma lookup_from_hit:
  assumes "name \<in> set table"
    and "equal_ignoring_case (take (length name) (p_value p)) name"
    and "\<forall>n\<in>set table. equal_ignoring_case (take (length n) (p_value p)) n \<longrightarrow>
           length n = length name"
  shows "\<exists>k. lookup_from i table p =
           Some (k, p\<lparr>p_value := drop (length name) (p_value p)\<rparr>)"
  using assms
proof (induction table arbitrary: i)
  case Nil
  then show ?case by simp
next
  case (Cons n table)
  show ?case
  proof (cases "equal_ignoring_case (take (length n) (p_value p)) n")
    case True
    with Cons.prems(3) have "length n = length name"
      by simp
    with True show ?thesis
      by (simp add: lookup_from_step del: lookup_from.simps)
  next
    case False
    with Cons.prems(1,2) have "name \<in> set table"
      by auto
    from Cons.IH [OF this Cons.prems(2)] Cons.prems(3) False show ?thesis
      by (simp add: lookup_from_step del: lookup_from.simps)
  qed
qed

lemma lookup_from_miss:
  assumes "\<forall>n\<in>set table. \<not> equal_ignoring_case (take (length n) (p_value p)) n"
  shows "lookup_from i table p = Some (0, parseFailed p)"
  using assms
proof (induction table arbitrary: i)
  case Nil
  show ?case by simp
next
  case (Cons n table)
  then show ?case
    by (simp add: lookup_from_step del: lookup_from.simps)
qed

lemma take2_fold:
  assumes "equal_ignoring_case (take (length n) val) n" "2 \<le> length n"
  shows "map lower_case (take 2 val) = map lower_case (take 2 n)"
proof -
  have "take 2 (map lower_case (take (length n) val)) = take 2 (map lower_case n)"
    using assms(1) unfolding equal_ignoring_case_def by (rule arg_cong)
  then show ?thesis
    using assms(2) by (simp add: take_map min_def)
qed

lemma day_names_two:
  assumes "table = shortDayNames \<or> table = longDayNames"
  shows "(\<forall>n\<in>set table. 2 \<le> length n) \<and>
     (\<forall>n\<in>set table. \<forall>m\<in>set table.
        map lower_case (take 2 n) = map lower_case (take 2 m) \<longrightarrow> n = m)"
proof -
  have d: "distinct (map (\<lambda>n. map lower_case (take 2 n)) table)"
    using assms by (auto simp: shortDayNames_def longDayNames_def lower_case_def byte_of_def)
  then have "inj_on (\<lambda>n. map lower_case (take 2 n)) (set table)"
    by (simp add: distinct_map)
  then have "\<forall>n\<in>set table. \<forall>m\<in>set table.
        map lower_case (take 2 n) = map lower_case (take 2 m) \<longrightarrow> n = m"
    by (auto dest: inj_onD)
  moreover have "\<forall>n\<in>set table. 2 \<le> length n"
    using assms by (auto simp: shortDayNames_def longDayNames_def)
  ultimately show ?thesis
    by blast
qed

lemma day_names_unique:
  assumes "table = shortDayNames \<or> table = longDayNames"
    and "name \<in> set table" "equal_ignoring_case (take (length name) val) name"
  shows "\<forall>n\<in>set table. equal_ignoring_case (take (length n) val) n \<longrightarrow>
           length n = length name"
proof (intro ballI impI)
  fix n
  assume n: "n \<in> set table" "equal_ignoring_case (take (length n) val) n"
  note t = day_names_two [OF assms(1)]
  have "map lower_case (take 2 n) = map lower_case (take 2 val)"
    using take2_fold [OF n(2)] t n(1) by simp
  also have "\<dots> = map lower_case (take 2 name)"
    using take2_fold [OF assms(3)] t assms(2) by simp
  finally have "n = name"
    using t n(1) assms(2) by blast
  then show "length n = length name"
    by simp
qed

lemma weekday_step_hit:
  assumes i: "op i = opWeekDay \<and> table = shortDayNames \<or>
              op i = opLongWeekDay \<and> table = longDayNames"
    and e: "\<not> p_hasErr p"
    and n: "name \<in> set table" "length w = length name" "equal_ignoring_case w name"
    and v: "p_value p = w @ rest"
  shows "parse_step a v i (p, year, month, day, yday) =
           Some (Inr (p\<lparr>p_inst := i, p_valEl := w @ rest, p_value := rest\<rparr>,
                      year, month, day, yday))"
proof -
  define q where "q = setInst i p"
  have q: "p_value q = w @ rest" "\<not> p_hasErr q"
    using e v by (simp_all add: q_def setInst_def)
  have t: "take (length name) (p_value q) = w" "drop (length name) (p_value q) = rest"
    using n(2) by (simp_all add: q)
  have m: "equal_ignoring_case (take (length name) (p_value q)) name"
    using n(3) by (simp add: t)
  have "table = shortDayNames \<or> table = longDayNames"
    using i by blast
  from day_names_unique [OF this n(1) m]
  obtain k where "lookup_from 0 table q = Some (k, q\<lparr>p_value := drop (length name) (p_value q)\<rparr>)"
    using lookup_from_hit [OF n(1) m] by blast
  then have "lookup table q = Some (k, q\<lparr>p_value := rest\<rparr>)"
    by (simp add: lookup_def t)
  then have l: "lookup table (setInst i p) = Some (k, setInst i p\<lparr>p_value := rest\<rparr>)"
    by (simp only: q_def)
  have e': "\<not> p_hasErr (setInst i p)"
    using q(2) unfolding q_def .
  have r: "setInst i p\<lparr>p_value := rest\<rparr> =
      p\<lparr>p_inst := i, p_valEl := w @ rest, p_value := rest\<rparr>"
    by (simp add: setInst_def v)
  from i show ?thesis
  proof
    assume "op i = opWeekDay \<and> table = shortDayNames"
    then show ?thesis
      using l e' unfolding parse_step_def parse_switch_def r [symmetric]
      by simp
  next
    assume "op i = opLongWeekDay \<and> table = longDayNames"
    then show ?thesis
      using l e' unfolding parse_step_def parse_switch_def r [symmetric]
      by simp
  qed
qed

lemma weekday_step_miss:
  assumes i: "op i = opWeekDay \<and> table = shortDayNames \<and> tok = ''Mon'' \<or>
              op i = opLongWeekDay \<and> table = longDayNames \<and> tok = ''Monday''"
    and n: "\<forall>n\<in>set table. \<not> equal_ignoring_case (take (length n) (p_value p)) n"
  shows "parse_step a v i (p, year, month, day, yday) =
           Some (Inl \<lparr>Layout = a, Value = v, LayoutElem = tok, ValueElem = p_value p,
                       Message = Text []\<rparr>)"
proof -
  define q where "q = setInst i p"
  have q: "p_value q = p_value p" "p_valEl q = p_value p" "p_inst q = i"
    by (simp_all add: q_def setInst_def)
  have "lookup_from 0 table q = Some (0, parseFailed q)"
    using n by (intro lookup_from_miss) (simp add: q)
  then have "lookup table q = Some (0, parseFailed q)"
    by (simp add: lookup_def)
  then have l: "lookup table (setInst i p) = Some (0, parseFailed (setInst i p))"
    by (simp only: q_def)
  from i show ?thesis
  proof
    assume "op i = opWeekDay \<and> table = shortDayNames \<and> tok = ''Mon''"
    then show ?thesis
      using l unfolding parse_step_def parse_switch_def
      by (simp add: parseFailed_def parser_err_def inst_String_def setInst_def)
  next
    assume "op i = opLongWeekDay \<and> table = longDayNames \<and> tok = ''Monday''"
    then show ?thesis
      using l unfolding parse_step_def parse_switch_def
      by (simp add: parseFailed_def parser_err_def inst_String_def setInst_def)
  qed
qed


lemma Parse_Friday_2024_02_25:
  "Parse ''Monday 2006-01-02'' ''Friday 2024-02-25'' = Some (Inr 738940)"
  by code_simp

lemma Parse_2024_02_25: "Parse ''2006-01-02'' ''2024-02-25'' = Some (Inr 738940)"
  by code_simp

lemma Of_2024_2_25: "Of 2024 2 25 = Some 738940"
  by code_simp

lemma Weekday_738940: "Weekday 738940 = 0"
  by code_simp

lemma Weekday_String_738940: "Weekday_String (Weekday 738940) = ''Sunday''"
  by code_simp

lemma Parse_long_day_names:
  "list_all (\<lambda>n. Parse ''Monday 2006-01-02'' (n @ '' 2024-02-25'') = Some (Inr 738940))
     longDayNames"
  by code_simp

lemma Parse_short_day_names:
  "list_all (\<lambda>n. Parse ''Mon 2006-01-02'' (n @ '' 2024-02-25'') = Some (Inr 738940))
     shortDayNames"
  by code_simp

lemma Parse_mixed_case_day_names:
  "Parse ''Monday 2006-01-02'' ''fRIDAY 2024-02-25'' = Some (Inr 738940) \<and>
   Parse ''Mon 2006-01-02'' ''sat 2024-02-25'' = Some (Inr 738940)"
  by code_simp

lemma Parse_Freitag:
  "Parse ''Monday 2006-01-02'' ''Freitag 2024-02-25'' =
     Some (Inl \<lparr>Layout = ''Monday 2006-01-02'', Value = ''Freitag 2024-02-25'',
                 LayoutElem = ''Monday'', ValueElem = ''Freitag 2024-02-25'',
                 Message = Text []\<rparr>)"
  by code_simp

lemma equal_ignoring_case_fRIDAY: "equal_ignoring_case ''fRIDAY'' ''Friday''"
  by (simp add: equal_ignoring_case_def lower_case_def byte_of_def)

text \<open>
  Claim C4. Let \<open>i\<close> be a weekday token of the layout, short (\<^verbatim>\<open>Mon\<close>, read against
  \<^verbatim>\<open>shortDayNames\<close>) or long (\<^verbatim>\<open>Monday\<close>, read against \<^verbatim>\<open>longDayNames\<close>).

  \<^item> If the input left to read is \<open>w @ rest\<close> where \<open>w\<close> equals one of the names of the table
    ignoring case, the iteration of the loop of \<^verbatim>\<open>Parse\<close> for this token removes exactly
    \<open>w\<close> from the input and leaves \<open>year\<close>, \<open>month\<close>, \<open>day\<close> and \<open>yday\<close> as they were, whichever
    name it is: the weekday that was read is dropped.
  \<^item> If the input left to read starts with no name of the table, ignoring case, the
    iteration returns a \<^verbatim>\<open>ParseError\<close> at this token.
  \<^item> \<^verbatim>\<open>Parse("Monday 2006-01-02", "Friday 2024-02-25")\<close> returns \<^verbatim>\<open>Of(2024, 2, 25)\<close>, the
    \<^verbatim>\<open>Date\<close> that \<^verbatim>\<open>Parse("2006-01-02", "2024-02-25")\<close> returns, and its \<^verbatim>\<open>Weekday()\<close> is
    \<^verbatim>\<open>Sunday\<close>; the same \<^verbatim>\<open>Date\<close> is returned with every one of the seven long names in
    place of \<^verbatim>\<open>Friday\<close>, with every one of the seven short names under the layout
    \<^verbatim>\<open>Mon 2006-01-02\<close>, and with \<^verbatim>\<open>fRIDAY\<close> and \<^verbatim>\<open>sat\<close>.
\<close>

theorem C4_weekday_token:
  "((op i = opWeekDay \<and> table = shortDayNames \<and> tok = ''Mon'' \<or>
     op i = opLongWeekDay \<and> table = longDayNames \<and> tok = ''Monday'') \<longrightarrow>
      (\<not> p_hasErr p \<and> name \<in> set table \<and> length w = length name \<and>
       equal_ignoring_case w name \<and> p_value p = w @ rest \<longrightarrow>
         parse_step a v i (p, year, month, day, yday) =
           Some (Inr (p\<lparr>p_inst := i, p_valEl := w @ rest, p_value := rest\<rparr>,
                      year, month, day, yday))) \<and>
      ((\<forall>n\<in>set table. \<not> equal_ignoring_case (take (length n) (p_value p)) n) \<longrightarrow>
         parse_step a v i (p, year, month, day, yday) =
           Some (Inl \<lparr>Layout = a, Value = v, LayoutElem = tok, ValueElem = p_value p,
                       Message = Text []\<rparr>))) \<and>
   Parse ''Monday 2006-01-02'' ''Friday 2024-02-25'' = Some (Inr 738940) \<and>
   Parse ''2006-01-02'' ''2024-02-25'' = Some (Inr 738940) \<and>
   Of 2024 2 25 = Some 738940 \<and>
   Weekday 738940 = 0 \<and> Weekday_String (Weekday 738940) = ''Sunday'' \<and>
   list_all (\<lambda>n. Parse ''Monday 2006-01-02'' (n @ '' 2024-02-25'') = Some (Inr 738940))
     longDayNames \<and>
   list_all (\<lambda>n. Parse ''Mon 2006-01-02'' (n @ '' 2024-02-25'') = Some (Inr 738940))
     shortDayNames \<and>
   Parse ''Monday 2006-01-02'' ''fRIDAY 2024-02-25'' = Some (Inr 738940) \<and>
   Parse ''Mon 2006-01-02'' ''sat 2024-02-25'' = Some (Inr 738940)"
proof -
  have hit: "parse_step a v i (p, year, month, day, yday) =
           Some (Inr (p\<lparr>p_inst := i, p_valEl := w @ rest, p_value := rest\<rparr>,
                      year, month, day, yday))"
    if "op i = opWeekDay \<and> table = shortDayNames \<and> tok = ''Mon'' \<or>
        op i = opLongWeekDay \<and> table = longDayNames \<and> tok = ''Monday''"
      and "\<not> p_hasErr p \<and> name \<in> set table \<and> length w = length name \<and>
        equal_ignoring_case w name \<and> p_value p = w @ rest"
    using that by (intro weekday_step_hit [where table = table and name = name]) blast+
  have miss: "parse_step a v i (p, year, month, day, yday) =
           Some (Inl \<lparr>Layout = a, Value = v, LayoutElem = tok, ValueElem = p_value p,
                       Message = Text []\<rparr>)"
    if "op i = opWeekDay \<and> table = shortDayNames \<and> tok = ''Mon'' \<or>
        op i = opLongWeekDay \<and> table = longDayNames \<and> tok = ''Monday''"
      and "\<forall>n\<in>set table. \<not> equal_ignoring_case (take (length n) (p_value p)) n"
    using that by (rule weekday_step_miss)
  from hit miss show ?thesis
    using Parse_Friday_2024_02_25 Parse_2024_02_25 Of_2024_2_25 Weekday_738940
      Weekday_String_738940 Parse_long_day_names Parse_short_day_names
      Parse_mixed_case_day_names
    by blast
qed

theorem C4_weekday_token_witness:
  "op \<lparr>op = opLongWeekDay, lit = []\<rparr> = opLongWeekDay \<and>
   \<not> p_hasErr (newParser ''fRIDAY 2024-02-25'') \<and>
   ''Friday'' \<in> set longDayNames \<and> length ''fRIDAY'' = length ''Friday'' \<and>
   equal_ignoring_case ''fRIDAY'' ''Friday'' \<and>
   p_value (newParser ''fRIDAY 2024-02-25'') = ''fRIDAY'' @ '' 2024-02-25'' \<and>
   parse_step ''Monday 2006-01-02'' ''fRIDAY 2024-02-25'' \<lparr>op = opLongWeekDay, lit = []\<rparr>
     (newParser ''fRIDAY 2024-02-25'', 0, - 1, - 1, - 1) =
   Some (Inr (\<lparr>p_inst = \<lparr>op = opLongWeekDay, lit = []\<rparr>, p_hasErr = False,
                p_value = '' 2024-02-25'', p_valEl = ''fRIDAY 2024-02-25'', p_errMsg = []\<rparr>,
              0, - 1, - 1, - 1))"
proof -
  have h: "op \<lparr>op = opLongWeekDay, lit = []\<rparr> = opLongWeekDay"
    "\<not> p_hasErr (newParser ''fRIDAY 2024-02-25'')"
    "''Friday'' \<in> set longDayNames" "length ''fRIDAY'' = length ''Friday''"
    "p_value (newParser ''fRIDAY 2024-02-25'') = ''fRIDAY'' @ '' 2024-02-25''"
    by (simp_all add: newParser_def longDayNames_def)
  from C4_weekday_token [of "\<lparr>op = opLongWeekDay, lit = []\<rparr>" longDayNames "''Monday''"
      "newParser ''fRIDAY 2024-02-25''" "''Friday''" "''fRIDAY''" "'' 2024-02-25''"
      "''Monday 2006-01-02''" "''fRIDAY 2024-02-25''" 0 "- 1" "- 1" "- 1"]
    h equal_ignoring_case_fRIDAY
  have "parse_step ''Monday 2006-01-02'' ''fRIDAY 2024-02-25'' \<lparr>op = opLongWeekDay, lit = []\<rparr>
     (newParser ''fRIDAY 2024-02-25'', 0, - 1, - 1, - 1) =
     Some (Inr (newParser ''fRIDAY 2024-02-25''
                  \<lparr>p_inst := \<lparr>op = opLongWeekDay, lit = []\<rparr>,
                    p_valEl := ''fRIDAY'' @ '' 2024-02-25'', p_value := '' 2024-02-25''\<rparr>,
                0, - 1, - 1, - 1))"
    by blast
  then have "parse_step ''Monday 2006-01-02'' ''fRIDAY 2024-02-25'' \<lparr>op = opLongWeekDay, lit = []\<rparr>
     (newParser ''fRIDAY 2024-02-25'', 0, - 1, - 1, - 1) =
   Some (Inr (\<lparr>p_inst = \<lparr>op = opLongWeekDay, lit = []\<rparr>, p_hasErr = False,
                p_value = '' 2024-02-25'', p_valEl = ''fRIDAY 2024-02-25'', p_errMsg = []\<rparr>,
              0, - 1, - 1, - 1))"
    by (simp add: newParser_def)
  with h equal_ignoring_case_fRIDAY show ?thesis
    by (intro conjI)
qed

section \<open>The binary encoding\<close>

lemma bit_0x80: "bit (0x80 :: int) n \<longleftrightarrow> n = 7"
proof -
  have e: "(0x80 :: int) = 2 ^ 7" by simp
  show ?thesis
    unfolding e bit_exp_iff by auto
qed

lemma bit_0x7f: "bit (0x7f :: int) n \<longleftrightarrow> n < 7"
proof -
  have e: "(0x7f :: int) = mask 7" by (simp add: mask_eq_exp_minus_1)
  show ?thesis
    unfolding e bit_mask_iff by auto
qed

lemma lt_2p_bits:
  fixes w :: "'a :: len word"
  assumes "k < LENGTH('a)"
  shows "w < 2 ^ k \<longleftrightarrow> (\<forall>n. bit w n \<longrightarrow> n < k)"
proof -
  have "w < 2 ^ k \<longleftrightarrow> w AND mask k = w"
    using assms by (simp add: mask_eq_iff_w2p word_size)
  also have "\<dots> \<longleftrightarrow> (\<forall>n. bit w n \<longrightarrow> n < k)"
  proof
    assume a: "w AND mask k = w"
    show "\<forall>n. bit w n \<longrightarrow> n < k"
    proof (intro allI impI)
      fix n
      assume "bit w n"
      then have "bit (w AND mask k) n" by (simp only: a)
      then show "n < k" by (simp add: bit_simps)
    qed
  next
    assume a: "\<forall>n. bit w n \<longrightarrow> n < k"
    show "w AND mask k = w"
      by (rule bit_eqI) (use a in \<open>auto simp: bit_simps\<close>)
  qed
  finally show ?thesis .
qed

lemma low7:
  fixes y :: "64 word"
  shows "ucast ((ucast y OR 0x80 :: byte) AND 0x7f) = y AND 0x7f"
  by (rule bit_eqI) (auto simp: bit_simps bit_0x80 bit_0x7f)

lemma split7:
  fixes y :: "64 word"
  shows "push_bit s (y AND 0x7f) OR push_bit (s + 7) (drop_bit 7 y) = push_bit s y"
proof (rule bit_eqI)
  fix n
  assume "possible_bit TYPE(64 word) n"
  then have n: "n < 64" by (simp add: possible_bit_word)
  show "bit (push_bit s (y AND 0x7f) OR push_bit (s + 7) (drop_bit 7 y)) n \<longleftrightarrow>
        bit (push_bit s y) n"
  proof (cases "n < s + 7")
    case True
    then show ?thesis
      using n by (auto simp: bit_simps bit_0x7f)
  next
    case False
    then have "7 + (n - (s + 7)) = n - s" "s \<le> n" "\<not> n - s < 7"
      by simp_all
    then show ?thesis
      using n False by (auto simp: bit_simps bit_0x7f)
  qed
qed

lemma cont_byte:
  fixes y :: "64 word"
  shows "\<not> (ucast y OR 0x80 :: byte) < 0x80"
  by (simp add: not_less le_word_or1)

lemma small_byte:
  fixes y :: "64 word"
  assumes "y < 0x80"
  shows "(ucast y :: byte) < 0x80" "ucast (ucast y :: byte) = y"
proof -
  have "y < 2 ^ 7"
    using assms by simp
  then have b: "bit y n \<Longrightarrow> n < 7" for n
    using lt_2p_bits [of 7 y] by simp
  have "(ucast y :: byte) < 2 ^ 7"
    using b by (subst lt_2p_bits) (auto simp: bit_simps)
  then show "(ucast y :: byte) < 0x80"
    by simp
  show "ucast (ucast y :: byte) = y"
    by (rule bit_eqI) (use b in \<open>fastforce simp: bit_simps\<close>)
qed

lemma tiny_byte:
  fixes y :: "64 word"
  assumes "unat y < 2"
  shows "\<not> 1 < (ucast y :: byte)"
proof -
  have "y < 2 ^ 1"
    using assms by (simp add: word_less_nat_alt)
  then have b: "bit y n \<Longrightarrow> n < 1" for n
    using lt_2p_bits [of 1 y] by simp
  have "(ucast y :: byte) < 2 ^ 1"
    using b by (subst lt_2p_bits) (auto simp: bit_simps)
  then have "unat (ucast y :: byte) < 2"
    by (simp add: word_less_nat_alt)
  then show ?thesis
    by (simp add: word_less_nat_alt)
qed

lemma zigzag:
  fixes d :: "64 word"
  shows "(let ux = (if d <s 0 then NOT (push_bit 1 d) else push_bit 1 d);
              x = drop_bit 1 ux
          in if ux AND 1 \<noteq> 0 then NOT x else x) = d"
proof -
  define p where "p = push_bit 1 d"
  have pb: "bit p k \<longleftrightarrow> 1 \<le> k \<and> k < 64 \<and> bit d (k - 1)" for k
    unfolding p_def bit_push_bit_iff by (auto simp: possible_bit_word)
  have "even p"
    by (simp add: p_def push_bit_eq_mult)
  then have ev: "p mod 2 = 0"
    by (simp only: even_iff_mod_2_eq_zero)
  from \<open>even p\<close> have "odd (NOT p)"
    by (simp add: even_not_iff)
  then have "NOT p mod 2 = 1"
    by (simp only: odd_iff_mod_2_eq_one)
  then have od: "NOT p mod 2 \<noteq> 0"
    by (simp only:) simp
  have m: "bit d 63 \<longleftrightarrow> d <s 0"
    using bit_last_iff [of d] by (simp add: word_sless_alt)
  show ?thesis
  proof (cases "d <s 0")
    case True
    have o: "NOT p AND 1 \<noteq> 0"
      using od unfolding and_one_eq .
    have "NOT (drop_bit 1 (NOT p)) = d"
    proof (rule bit_eqI)
      fix n
      assume "possible_bit TYPE(64 word) n"
      then have n: "n < 64" by (simp add: possible_bit_word)
      show "bit (NOT (drop_bit 1 (NOT p))) n \<longleftrightarrow> bit d n"
        using n m True by (cases "n = 63") (auto simp: bit_simps pb)
    qed
    with True o show ?thesis
      unfolding p_def [symmetric] by (simp only: Let_def if_True simp_thms)
  next
    case False
    have o: "p AND 1 = 0"
      using ev unfolding and_one_eq .
    have "drop_bit 1 p = d"
    proof (rule bit_eqI)
      fix n
      assume "possible_bit TYPE(64 word) n"
      then have n: "n < 64" by (simp add: possible_bit_word)
      show "bit (drop_bit 1 p) n \<longleftrightarrow> bit d n"
        using n m False by (cases "n = 63") (auto simp: bit_simps pb)
    qed
    with False o show ?thesis
      unfolding p_def [symmetric] by (simp only: Let_def if_False simp_thms)
  qed
qed


lemma Uvarint_loop_PutUvarint:
  "i \<le> 9 \<Longrightarrow> unat y < 2 ^ (64 - 7 * i) \<Longrightarrow>
     Uvarint_loop (PutUvarint y @ rest) i x s =
       (x OR push_bit s y, int (i + length (PutUvarint y))) \<and>
     i + length (PutUvarint y) \<le> 10"
proof (induction y arbitrary: i x s rule: PutUvarint.induct)
  case (1 y)
  show ?case
  proof (cases "0x80 \<le> y")
    case True
    then have u: "128 \<le> unat y"
      by (simp add: word_le_nat_alt)
    have i8: "i \<le> 8"
    proof (rule ccontr)
      assume "\<not> i \<le> 8"
      with "1.prems"(1) have "i = 9" by simp
      with "1.prems"(2) u show False by simp
    qed
    have "64 - 7 * i = 7 + (64 - 7 * (i + 1))"
      using i8 by simp
    then have "(2 :: nat) ^ (64 - 7 * i) = 2 ^ 7 * 2 ^ (64 - 7 * (i + 1))"
      by (simp only: power_add)
    then have "unat y div 2 ^ 7 < 2 ^ (64 - 7 * (i + 1))"
      using "1.prems"(2) by (simp add: less_mult_imp_div_less mult.commute)
    then have d: "unat (drop_bit 7 y) < 2 ^ (64 - 7 * (i + 1))"
      by (simp add: drop_bit_eq_div unat_div)
    have i9: "i + 1 \<le> 9"
      using i8 by simp
    define x1 where "x1 = x OR push_bit s (ucast ((ucast y OR 0x80 :: byte) AND 0x7f))"
    have "(x OR push_bit s (y AND 0x7f)) OR push_bit (s + 7) (drop_bit 7 y) =
        x OR push_bit s y"
      by (simp only: or.assoc split7)
    then have v: "x1 OR push_bit (s + 7) (drop_bit 7 y) = x OR push_bit s y"
      unfolding x1_def low7 .
    note IH = "1.IH" [OF True i9 d, of x1 "s + 7", unfolded v]
    have e: "PutUvarint y = (ucast y OR 0x80) # PutUvarint (drop_bit 7 y)"
      using True by (subst PutUvarint.simps) simp
    have step: "Uvarint_loop (((ucast y OR 0x80) # PutUvarint (drop_bit 7 y)) @ rest) i x s =
        Uvarint_loop (PutUvarint (drop_bit 7 y) @ rest) (i + 1) x1 (s + 7)"
      unfolding x1_def using i8 cont_byte [of y] by (simp add: MaxVarintLen64_def)
    show ?thesis
      unfolding e step using IH by simp
  next
    case False
    then have lt: "y < 0x80"
      by simp
    have e: "PutUvarint y = [ucast y]"
      using False by (subst PutUvarint.simps) simp
    have t: "\<not> (i = 9 \<and> 1 < (ucast y :: byte))"
    proof
      assume a: "i = 9 \<and> 1 < (ucast y :: byte)"
      with "1.prems"(2) have "unat y < 2" by simp
      from tiny_byte [OF this] a show False by simp
    qed
    show ?thesis
      unfolding e using "1.prems"(1) t small_byte [OF lt]
      by (auto simp: MaxVarintLen64_def)
  qed
qed

lemma PutUvarint_length: "1 \<le> length (PutUvarint y)"
  by (subst PutUvarint.simps) simp

lemma Varint_PutVarint:
  "Varint (PutVarint d @ rest) = (d, int (length (PutVarint d)))"
  "length (PutVarint d) \<le> 10"
proof -
  define ux where "ux = (if d <s 0 then NOT (push_bit 1 d) else push_bit 1 d)"
  have p: "PutVarint d = PutUvarint ux"
    by (simp add: PutVarint_def ux_def Let_def)
  have "unat ux < 2 ^ (64 - 7 * 0)"
    using unsigned_less [of ux, where 'a = nat] by simp
  from Uvarint_loop_PutUvarint [OF _ this, of rest 0 0]
  have u: "Uvarint (PutUvarint ux @ rest) = (ux, int (length (PutUvarint ux)))"
    and l: "length (PutUvarint ux) \<le> 10"
    by (simp_all add: Uvarint_def)
  show "length (PutVarint d) \<le> 10"
    using l by (simp add: p)
  have "(let x = drop_bit 1 ux in if ux AND 1 \<noteq> 0 then NOT x else x) = d"
    using zigzag [of d] by (simp add: ux_def Let_def)
  then show "Varint (PutVarint d @ rest) = (d, int (length (PutVarint d)))"
    by (simp add: Varint_def p u Let_def)
qed

lemma Uvarint_loop_cont:
  assumes "\<forall>c\<in>set pre. 0x80 \<le> c" "i + length pre \<le> 10"
  shows "\<exists>x'. Uvarint_loop (pre @ rest) i x s =
           Uvarint_loop rest (i + length pre) x' (s + 7 * length pre)"
  using assms
proof (induction pre arbitrary: i x s)
  case Nil
  show ?case by auto
next
  case (Cons c pre)
  have c: "\<not> c < 0x80" "i \<noteq> 10"
    using Cons.prems by (simp_all add: not_less)
  have "\<forall>c\<in>set pre. 0x80 \<le> c" "(i + 1) + length pre \<le> 10"
    using Cons.prems by simp_all
  from Cons.IH [OF this, of "x OR push_bit s (ucast (c AND 0x7f))" "s + 7"] c show ?case
    by (simp add: MaxVarintLen64_def algebra_simps)
qed

lemma Uvarint_snd:
  "snd (Uvarint b) =
     (let pre = takeWhile (\<lambda>c. 0x80 \<le> c) b; rest = dropWhile (\<lambda>c. 0x80 \<le> c) b
      in if rest = [] then (if length pre \<le> 10 then 0 else - 11)
         else if 10 \<le> length pre then - 11
         else if length pre = 9 \<and> 1 < hd rest then - 10
         else int (length pre) + 1)"
proof -
  define pre where "pre = takeWhile (\<lambda>c. 0x80 \<le> c) b"
  define rest where "rest = dropWhile (\<lambda>c. 0x80 \<le> c) b"
  have b: "b = pre @ rest"
    by (simp add: pre_def rest_def)
  have pre: "\<forall>c\<in>set pre. 0x80 \<le> c"
    unfolding pre_def by (auto dest: set_takeWhileD)
  have hd: "rest \<noteq> [] \<Longrightarrow> hd rest < 0x80"
    unfolding rest_def using hd_dropWhile [of "\<lambda>c. 0x80 \<le> c" b] by (simp add: not_le)
  have "snd (Uvarint_loop (pre @ rest) 0 0 0) =
      (if rest = [] then (if length pre \<le> 10 then 0 else - 11)
         else if 10 \<le> length pre then - 11
         else if length pre = 9 \<and> 1 < hd rest then - 10
         else int (length pre) + 1)"
  proof (cases "length pre \<le> 10")
    case True
    from Uvarint_loop_cont [OF pre, of 0 rest 0 0] True
    obtain x' where l: "Uvarint_loop (pre @ rest) 0 0 0 =
        Uvarint_loop rest (length pre) x' (7 * length pre)"
      by auto
    show ?thesis
    proof (cases rest)
      case Nil
      then show ?thesis
        using True l by simp
    next
      case (Cons t r)
      then have "t < 0x80"
        using hd by simp
      then show ?thesis
        unfolding l using True Cons by (auto simp: MaxVarintLen64_def)
    qed
  next
    case False
    define p1 where "p1 = take 10 pre"
    define p2 where "p2 = drop 10 pre"
    have s: "pre = p1 @ p2" "length p1 = 10" "p2 \<noteq> []"
      using False by (simp_all add: p1_def p2_def)
    have "\<forall>c\<in>set p1. 0x80 \<le> c"
      using pre s(1) by auto
    from Uvarint_loop_cont [OF this, of 0 "p2 @ rest" 0 0] s(2)
    obtain x' where l: "Uvarint_loop (p1 @ p2 @ rest) 0 0 0 =
        Uvarint_loop (p2 @ rest) 10 x' 70"
      by auto
    obtain c q where q: "p2 = c # q"
      using s(3) by (cases p2) auto
    have "Uvarint_loop (p2 @ rest) 10 x' 70 = (0, - 11)"
      unfolding q by (simp add: MaxVarintLen64_def)
    then have "snd (Uvarint_loop (pre @ rest) 0 0 0) = - 11"
      unfolding s(1) append_assoc l by simp
    then show ?thesis
      using False by auto
  qed
  then show ?thesis
    by (simp add: Uvarint_def Let_def pre_def rest_def)
qed


lemma UnmarshalBinary_cases:
  "UnmarshalBinary d b =
     (let pre = takeWhile (\<lambda>c. 0x80 \<le> c) b; rest = dropWhile (\<lambda>c. 0x80 \<le> c) b
      in if rest = []
         then (if length pre \<le> 10 then (Some ''encoded date truncated'', d)
               else (Some ''encoded date overflows int'', d))
         else if 10 \<le> length pre \<or> (length pre = 9 \<and> 1 < hd rest)
         then (Some ''encoded date overflows int'', d)
         else if tl rest \<noteq> [] then (Some ''extra data after date'', d)
         else (None, fst (Varint b)))"
proof -
  define pre where "pre = takeWhile (\<lambda>c. 0x80 \<le> c) b"
  define rest where "rest = dropWhile (\<lambda>c. 0x80 \<le> c) b"
  have b: "length b = length pre + length rest"
    unfolding pre_def rest_def by (metis length_append takeWhile_dropWhile_id)
  have "snd (Varint b) = snd (Uvarint b)"
    by (simp add: Varint_def Let_def split: prod.splits)
  then have i: "snd (Varint b) =
      (if rest = [] then (if length pre \<le> 10 then 0 else - 11)
         else if 10 \<le> length pre then - 11
         else if length pre = 9 \<and> 1 < hd rest then - 10
         else int (length pre) + 1)"
    by (simp add: Uvarint_snd Let_def pre_def rest_def)
  obtain v n where vn: "Varint b = (v, n)"
    by (cases "Varint b")
  have t: "tl rest \<noteq> [] \<longleftrightarrow> int (length pre) + 1 \<noteq> int (length b)" if "rest \<noteq> []"
    using that b by (cases rest) auto
  have "UnmarshalBinary d b =
      (if rest = []
         then (if length pre \<le> 10 then (Some ''encoded date truncated'', d)
               else (Some ''encoded date overflows int'', d))
         else if 10 \<le> length pre \<or> (length pre = 9 \<and> 1 < hd rest)
         then (Some ''encoded date overflows int'', d)
         else if tl rest \<noteq> [] then (Some ''extra data after date'', d)
         else (None, fst (Varint b)))"
    using i t unfolding UnmarshalBinary_def vn by (auto split: if_splits)
  then show ?thesis
    by (simp add: Let_def pre_def rest_def)
qed

lemma wellformed_varint_split:
  "wellformed_varint b \<longleftrightarrow>
     (let pre = takeWhile (\<lambda>c. 0x80 \<le> c) b; rest = dropWhile (\<lambda>c. 0x80 \<le> c) b
      in rest \<noteq> [] \<and> tl rest = [] \<and> length pre \<le> 9 \<and> \<not> (length pre = 9 \<and> 1 < hd rest))"
proof
  assume w: "wellformed_varint b"
  then have b: "b = butlast b @ [last b]"
    by (simp add: wellformed_varint_def)
  have p: "\<And>c. c \<in> set (butlast b) \<Longrightarrow> 0x80 \<le> c" and l: "\<not> 0x80 \<le> last b"
    using w by (simp_all add: wellformed_varint_def list_all_iff not_le)
  have "takeWhile (\<lambda>c. 0x80 \<le> c) (butlast b @ [last b]) = butlast b"
    using p l by (simp add: takeWhile_append2)
  moreover have "dropWhile (\<lambda>c. 0x80 \<le> c) (butlast b @ [last b]) = [last b]"
    using p l by (simp add: dropWhile_append2)
  ultimately have "takeWhile (\<lambda>c. 0x80 \<le> c) b = butlast b"
    "dropWhile (\<lambda>c. 0x80 \<le> c) b = [last b]"
    using b by simp_all
  then show "let pre = takeWhile (\<lambda>c. 0x80 \<le> c) b; rest = dropWhile (\<lambda>c. 0x80 \<le> c) b
      in rest \<noteq> [] \<and> tl rest = [] \<and> length pre \<le> 9 \<and> \<not> (length pre = 9 \<and> 1 < hd rest)"
    using w by (auto simp: wellformed_varint_def Let_def not_less)
next
  define pre where "pre = takeWhile (\<lambda>c. 0x80 \<le> c) b"
  define rest where "rest = dropWhile (\<lambda>c. 0x80 \<le> c) b"
  assume "let pre = takeWhile (\<lambda>c. 0x80 \<le> c) b; rest = dropWhile (\<lambda>c. 0x80 \<le> c) b
      in rest \<noteq> [] \<and> tl rest = [] \<and> length pre \<le> 9 \<and> \<not> (length pre = 9 \<and> 1 < hd rest)"
  then have a: "rest \<noteq> []" "tl rest = []" "length pre \<le> 9" "\<not> (length pre = 9 \<and> 1 < hd rest)"
    by (simp_all add: Let_def pre_def rest_def)
  then obtain t where r: "rest = [t]"
    by (cases rest) auto
  have "b = pre @ rest"
    by (simp add: pre_def rest_def)
  then have b: "b = pre @ [t]"
    by (simp only: r)
  have pre: "\<forall>c\<in>set pre. 0x80 \<le> c"
    unfolding pre_def by (auto dest: set_takeWhileD)
  have "hd rest < 0x80"
    unfolding rest_def using hd_dropWhile [of "\<lambda>c. 0x80 \<le> c" b] a(1)
    by (simp add: not_le rest_def)
  then have t: "t < 0x80"
    by (simp add: r)
  show "wellformed_varint b"
    unfolding wellformed_varint_def b using pre t a(3,4) r
    by (auto simp: list_all_iff not_less)
qed


lemma UnmarshalBinary_wellformed:
  "fst (UnmarshalBinary d b) = None \<longleftrightarrow> wellformed_varint b"
  unfolding wellformed_varint_split UnmarshalBinary_cases [of d b]
  by (auto simp: Let_def not_le)

lemma UnmarshalBinary_extra:
  assumes "wellformed_varint w" "extra \<noteq> []"
  shows "UnmarshalBinary d (w @ extra) = (Some ''extra data after date'', d)"
proof -
  have w: "w = butlast w @ [last w]" "length (butlast w) \<le> 9"
    "length (butlast w) = 9 \<longrightarrow> \<not> 1 < last w"
    using assms(1) by (auto simp: wellformed_varint_def not_less)
  have p: "\<And>c. c \<in> set (butlast w) \<Longrightarrow> 0x80 \<le> c" and l: "\<not> 0x80 \<le> last w"
    using assms(1) by (simp_all add: wellformed_varint_def list_all_iff not_le)
  have t: "takeWhile (\<lambda>c. 0x80 \<le> c) (butlast w @ last w # extra) = butlast w"
    using p l by (simp add: takeWhile_append2)
  have dr: "dropWhile (\<lambda>c. 0x80 \<le> c) (butlast w @ last w # extra) = last w # extra"
    using p l by (simp add: dropWhile_append2)
  have eq: "w @ extra = butlast w @ last w # extra"
    using w(1) by (metis append_Cons append_Nil append_assoc)
  show ?thesis
    unfolding eq UnmarshalBinary_cases [of d "butlast w @ last w # extra"] Let_def t dr
    using w(2,3) assms(2) by auto
qed

lemma UnmarshalBinary_prefix:
  assumes "wellformed_varint w" "k < length w"
  shows "UnmarshalBinary d (take k w) = (Some ''encoded date truncated'', d)"
proof -
  have "take k w = take k (butlast w)"
    using assms(2) by (simp add: take_butlast)
  moreover have "\<And>c. c \<in> set (butlast w) \<Longrightarrow> 0x80 \<le> c"
    using assms(1) by (simp add: wellformed_varint_def list_all_iff)
  ultimately have p: "\<And>c. c \<in> set (take k w) \<Longrightarrow> 0x80 \<le> c"
    by (metis in_set_takeD)
  then have t: "takeWhile (\<lambda>c. 0x80 \<le> c) (take k w) = take k w"
    and dr: "dropWhile (\<lambda>c. 0x80 \<le> c) (take k w) = []"
    by simp_all
  have "length (take k w) \<le> 10"
    using assms by (simp add: wellformed_varint_def)
  then show ?thesis
    unfolding UnmarshalBinary_cases [of d "take k w"] Let_def t dr by simp
qed

lemma MarshalBinary_roundtrip:
  "\<exists>bs. MarshalBinary x = Some bs \<and> wellformed_varint bs \<and> UnmarshalBinary d bs = (None, x)"
proof -
  have m: "MarshalBinary x = Some (PutVarint x)"
    using Varint_PutVarint(2) [of x] by (simp add: MarshalBinary_def MaxVarintLen64_def Let_def)
  have v: "Varint (PutVarint x) = (x, int (length (PutVarint x)))"
    using Varint_PutVarint(1) [of x "[]"] by simp
  have "Suc 0 \<le> length (PutUvarint y)" for y
    using PutUvarint_length [of y] by simp
  then have "1 \<le> length (PutVarint x)"
    by (simp add: PutVarint_def Let_def)
  then have "PutVarint x \<noteq> []"
    by auto
  then have u: "UnmarshalBinary d (PutVarint x) = (None, x)"
    by (simp add: UnmarshalBinary_def v)
  then have "fst (UnmarshalBinary d (PutVarint x)) = None"
    by simp
  then have "wellformed_varint (PutVarint x)"
    by (simp only: UnmarshalBinary_wellformed)
  with m u show ?thesis
    by blast
qed


lemma UnmarshalBinary_long:
  assumes "list_all (\<lambda>c. 0x80 \<le> c) p" "length p = 10" "r \<noteq> []"
  shows "UnmarshalBinary d (p @ r) = (Some ''encoded date overflows int'', d)"
proof -
  have p: "\<And>c. c \<in> set p \<Longrightarrow> 0x80 \<le> c"
    using assms(1) by (simp add: list_all_iff)
  have t: "takeWhile (\<lambda>c. 0x80 \<le> c) (p @ r) = p @ takeWhile (\<lambda>c. 0x80 \<le> c) r"
    using p by (simp add: takeWhile_append2)
  have dr: "dropWhile (\<lambda>c. 0x80 \<le> c) (p @ r) = dropWhile (\<lambda>c. 0x80 \<le> c) r"
    using p by (simp add: dropWhile_append2)
  have "dropWhile (\<lambda>c. 0x80 \<le> c) r = [] \<Longrightarrow> takeWhile (\<lambda>c. 0x80 \<le> c) r \<noteq> []"
    using assms(3) by (metis append_Nil takeWhile_dropWhile_id)
  then show ?thesis
    unfolding UnmarshalBinary_cases [of d "p @ r"] Let_def t dr
    using assms(2) by (auto simp: not_le)
qed

lemma UnmarshalBinary_last_byte:
  assumes "list_all (\<lambda>c. 0x80 \<le> c) p" "length p = 9" "t < 0x80" "1 < t"
  shows "UnmarshalBinary d (p @ t # r) = (Some ''encoded date overflows int'', d)"
proof -
  have p: "\<And>c. c \<in> set p \<Longrightarrow> 0x80 \<le> c" and l: "\<not> 0x80 \<le> t"
    using assms(1,3) by (simp_all add: list_all_iff not_le)
  have t: "takeWhile (\<lambda>c. 0x80 \<le> c) (p @ t # r) = p"
    using p l by (simp add: takeWhile_append2)
  have dr: "dropWhile (\<lambda>c. 0x80 \<le> c) (p @ t # r) = t # r"
    using p l by (simp add: dropWhile_append2)
  show ?thesis
    unfolding UnmarshalBinary_cases [of d "p @ t # r"] Let_def t dr
    using assms(2,4) by simp
qed

lemma MarshalBinary_717408: "MarshalBinary 717408 = Some [192, 201, 87]"
  by code_simp

lemma MarshalBinary_min:
  "MarshalBinary (- 9223372036854775808) =
     Some [255, 255, 255, 255, 255, 255, 255, 255, 255, 1]"
  by code_simp

lemma UnmarshalBinary_padded: "UnmarshalBinary 5 [0x80, 0] = (None, 0)"
  by code_simp

lemma wellformed_717408: "wellformed_varint [192, 201, 87]"
  by (simp add: wellformed_varint_def)

text \<open>
  Claim C9. \<^verbatim>\<open>UnmarshalBinary\<close> succeeds exactly on the well-formed varints, and what it
  returns is settled by the continuation bytes \<open>pre\<close> that the input starts with and the
  bytes \<open>rest\<close> after them:

  \<^item> \<^verbatim>\<open>encoded date truncated\<close> when the input ends with a continuation byte or is empty
    (at most ten bytes), in particular for every proper prefix of a well-formed
    varint;
  \<^item> \<^verbatim>\<open>encoded date overflows int\<close> when more than 64 bits are encoded: ten continuation
    bytes followed by any byte, or nine followed by a last byte greater than 1;
  \<^item> \<^verbatim>\<open>extra data after date\<close> when bytes follow a well-formed varint;
  \<^item> success otherwise, with the value that \<^verbatim>\<open>binary.Varint\<close> reads.

  The three messages are distinct, the receiver is returned as it was with each of them,
  and for every \<^verbatim>\<open>Date\<close> \<open>x\<close>, \<^verbatim>\<open>MarshalBinary\<close> returns a well-formed varint on which
  \<^verbatim>\<open>UnmarshalBinary\<close> succeeds and yields \<open>x\<close>.
\<close>

theorem C9_UnmarshalBinary:
  "(fst (UnmarshalBinary d b) = None \<longleftrightarrow> wellformed_varint b) \<and>
   UnmarshalBinary d b =
     (let pre = takeWhile (\<lambda>c. 0x80 \<le> c) b; rest = dropWhile (\<lambda>c. 0x80 \<le> c) b
      in if rest = []
         then (if length pre \<le> 10 then (Some ''encoded date truncated'', d)
               else (Some ''encoded date overflows int'', d))
         else if 10 \<le> length pre \<or> (length pre = 9 \<and> 1 < hd rest)
         then (Some ''encoded date overflows int'', d)
         else if tl rest \<noteq> [] then (Some ''extra data after date'', d)
         else (None, fst (Varint b))) \<and>
   UnmarshalBinary d [] = (Some ''encoded date truncated'', d) \<and>
   (wellformed_varint w \<and> k < length w \<longrightarrow>
      UnmarshalBinary d (take k w) = (Some ''encoded date truncated'', d)) \<and>
   (list_all (\<lambda>c. 0x80 \<le> c) p \<and> length p = 10 \<and> r \<noteq> [] \<longrightarrow>
      UnmarshalBinary d (p @ r) = (Some ''encoded date overflows int'', d)) \<and>
   (list_all (\<lambda>c. 0x80 \<le> c) q \<and> length q = 9 \<and> t < 0x80 \<and> 1 < t \<longrightarrow>
      UnmarshalBinary d (q @ t # r) = (Some ''encoded date overflows int'', d)) \<and>
   (wellformed_varint w \<and> extra \<noteq> [] \<longrightarrow>
      UnmarshalBinary d (w @ extra) = (Some ''extra data after date'', d)) \<and>
   (\<exists>bs. MarshalBinary x = Some bs \<and> wellformed_varint bs \<and>
         UnmarshalBinary d bs = (None, x)) \<and>
   distinct [''encoded date truncated'', ''encoded date overflows int'',
             ''extra data after date'']"
proof -
  have e: "UnmarshalBinary d [] = (Some ''encoded date truncated'', d)"
    by (simp add: UnmarshalBinary_cases)
  have di: "distinct [''encoded date truncated'', ''encoded date overflows int'',
             ''extra data after date'']"
    by simp
  from UnmarshalBinary_wellformed [of d b] UnmarshalBinary_cases [of d b] e
    UnmarshalBinary_prefix [of w k d] UnmarshalBinary_long [of p r d]
    UnmarshalBinary_last_byte [of q t d r] UnmarshalBinary_extra [of w extra d]
    MarshalBinary_roundtrip [of x d] di
  show ?thesis
    by (intro conjI impI) (elim conjE; assumption | blast)+
qed

theorem C9_UnmarshalBinary_witness:
  "wellformed_varint [192, 201, 87] \<and> (2 :: nat) < length [192 :: byte, 201, 87] \<and>
   [0 :: byte] \<noteq> [] \<and>
   MarshalBinary 717408 = Some [192, 201, 87] \<and>
   UnmarshalBinary 5 [192, 201, 87] = (None, 717408) \<and>
   UnmarshalBinary 5 (take 2 [192, 201, 87]) = (Some ''encoded date truncated'', 5) \<and>
   UnmarshalBinary 5 ([192, 201, 87] @ [0]) = (Some ''extra data after date'', 5)"
proof -
  note t = C9_UnmarshalBinary [of 5 "[192, 201, 87]" "[192, 201, 87]" 2 "[]" "[]" "[]" 0
      "[0]" 717408]
  have h: "(2 :: nat) < length [192 :: byte, 201, 87]" "[0 :: byte] \<noteq> []"
    by simp_all
  from t wellformed_717408 h
  have a: "UnmarshalBinary 5 (take 2 [192, 201, 87]) = (Some ''encoded date truncated'', 5)"
    and b: "UnmarshalBinary 5 ([192, 201, 87] @ [0]) = (Some ''extra data after date'', 5)"
    and c: "\<exists>bs. MarshalBinary 717408 = Some bs \<and> wellformed_varint bs \<and>
         UnmarshalBinary 5 bs = (None, 717408)"
    by blast+
  from c have "UnmarshalBinary 5 [192, 201, 87] = (None, 717408)"
    by (simp add: MarshalBinary_717408)
  with a b h wellformed_717408 MarshalBinary_717408 show ?thesis
    by (intro conjI)
qed

end
